theory Spec2Isabelle
  imports Main "HOL-Library.Word" "HOL-Library.Signed_Division"
begin

section \<open>Data model\<close>

text \<open>
  The facade \<open>Freesia\<close> of \<open>freesia.go\<close> coordinates three collaborators it does not
  implement: the remote store (\<open>f.store\<close>), the process-local cache (\<open>f.cache\<close>) and the
  task dispatcher (\<open>f.dispatcher\<close>). The embedding keeps the facade's code as it is
  written and records every call it makes on a collaborator, in order, in a trace.
  What a collaborator answers is not fixed here: it is a parameter (\<open>env\<close>), a function
  of the calls made so far, so every theorem holds for every behaviour of the
  collaborators.
\<close>

type_synonym key = string
type_synonym bytes = "8 word list"

text \<open>\<open>time.Duration\<close> is an \<open>int64\<close>.\<close>
type_synonym duration = "64 word"

text \<open>Go's \<open>/\<close> on signed integers truncates toward zero.\<close>
definition duration_div :: "duration \<Rightarrow> duration \<Rightarrow> duration" where
  "duration_div a b = word_of_int (sint a sdiv sint b)"

text \<open>
  An \<open>*entry.Entry\<close> is a pointer: entries live in a heap and are passed by address.
  Every address handed to the facade is taken to point to an allocated entry.
\<close>
type_synonym ref = nat

text \<open>
  Errors: the sentinel \<open>redis.Nil\<close>, any other error a collaborator or the codec
  reports (told apart by a number), and \<open>errors.Wrapf err format\<close>, which keeps
  the cause and the format string (the formatted arguments are left out).
\<close>
datatype error = RedisNil | Failure nat | Wrapf error string

record 'v entry =
  Key :: key
  Value :: 'v
  Expiration :: duration
  data :: bytes
  enableLocalCache :: bool

text \<open>\<open>redis.Message\<close>.\<close>
datatype message = Message (Channel: string) (Payload: string)

text \<open>
  A \<open>curlew.Job\<close> is a function with its argument. The facade builds two kinds:
  the backfill job of \<open>Get\<close> and \<open>batchGet\<close> (\<open>Arg\<close> is the entry, \<open>Fn\<close> calls
  \<open>f.Set\<close>), and the job of \<open>sub\<close> (\<open>Arg\<close> is the message, \<open>Fn\<close> evicts its keys).
\<close>
datatype job = BackfillJob ref | EvictJob message

text \<open>Commands queued on a \<open>redis.Pipeliner\<close>.\<close>
datatype pcmd = PSet key bytes duration | PGet key

text \<open>
  What \<open>pipe.Exec\<close> hands back, one for each command with that command's own result:
  a \<open>*redis.StringCmd\<close> (what \<open>pipe.Get\<close> queues), identified by the position at which
  it was queued, with what its \<open>Bytes()\<close> returns; a \<open>*redis.StatusCmd\<close> (what
  \<open>pipe.Set\<close> queues) with its position and its error; or a command of another type.
\<close>
datatype cmder = StringCmd nat bytes "error option" | StatusCmd nat "error option" | OtherCmd

text \<open>What \<open>cache.Get\<close> returns is an \<open>interface{}\<close>: a byte slice or anything else.\<close>
datatype cval = CBytes bytes | COther

text \<open>The calls the facade makes on its collaborators.\<close>
datatype call =
    StoreSet key bytes duration
  | StoreGet key
  | StoreDel "key list"
  | PipeExec "pcmd list"
  | Subscribe string
  | PubSubClose
  | CacheSet key bytes duration
  | CacheGet key
  | CacheDel key
  | SubmitAsync job

text \<open>
  The collaborators and the codec. Each answer may depend on the calls made so far.
  Go functions returning \<open>(value, error)\<close> return both, so the answers are pairs.
\<close>
record 'v env =
  marshal :: "'v \<Rightarrow> error + bytes"
  unmarshal :: "bytes \<Rightarrow> 'v \<Rightarrow> error option \<times> 'v"
  unmarshal_keys :: "string \<Rightarrow> error + key list"
  store_set_reply :: "call list \<Rightarrow> key \<Rightarrow> bytes \<Rightarrow> duration \<Rightarrow> error option"
  store_get_reply :: "call list \<Rightarrow> key \<Rightarrow> bytes \<times> error option"
  store_del_reply :: "call list \<Rightarrow> key list \<Rightarrow> error option"
  pipe_exec_reply :: "call list \<Rightarrow> pcmd list \<Rightarrow> cmder list \<times> error option"
  pubsub_close_reply :: "call list \<Rightarrow> error option"
  cache_set_reply :: "call list \<Rightarrow> key \<Rightarrow> bytes \<Rightarrow> duration \<Rightarrow> error option"
  cache_get_reply :: "call list \<Rightarrow> key \<Rightarrow> cval \<times> error option"
  cache_del_reply :: "call list \<Rightarrow> key \<Rightarrow> error option"

record 'v world =
  heap :: "ref \<Rightarrow> 'v entry"
  calls :: "call list"
  stdout :: "string list"

section \<open>Collaborator calls\<close>

definition called :: "call \<Rightarrow> 'v world \<Rightarrow> 'v world" where
  "called c w = w\<lparr>calls := calls w @ [c]\<rparr>"

definition store_Set :: "'v env \<Rightarrow> key \<Rightarrow> bytes \<Rightarrow> duration \<Rightarrow> 'v world \<Rightarrow> error option \<times> 'v world" where
  "store_Set env k b t w = (store_set_reply env (calls w) k b t, called (StoreSet k b t) w)"

definition store_Get :: "'v env \<Rightarrow> key \<Rightarrow> 'v world \<Rightarrow> (bytes \<times> error option) \<times> 'v world" where
  "store_Get env k w = (store_get_reply env (calls w) k, called (StoreGet k) w)"

definition store_Del :: "'v env \<Rightarrow> key list \<Rightarrow> 'v world \<Rightarrow> error option \<times> 'v world" where
  "store_Del env ks w = (store_del_reply env (calls w) ks, called (StoreDel ks) w)"

definition pipe_Exec :: "'v env \<Rightarrow> pcmd list \<Rightarrow> 'v world \<Rightarrow> (cmder list \<times> error option) \<times> 'v world" where
  "pipe_Exec env pipe w = (pipe_exec_reply env (calls w) pipe, called (PipeExec pipe) w)"

definition cache_Set :: "'v env \<Rightarrow> key \<Rightarrow> bytes \<Rightarrow> duration \<Rightarrow> 'v world \<Rightarrow> error option \<times> 'v world" where
  "cache_Set env k b t w = (cache_set_reply env (calls w) k b t, called (CacheSet k b t) w)"

definition cache_Get :: "'v env \<Rightarrow> key \<Rightarrow> 'v world \<Rightarrow> (cval \<times> error option) \<times> 'v world" where
  "cache_Get env k w = (cache_get_reply env (calls w) k, called (CacheGet k) w)"

definition cache_Del :: "'v env \<Rightarrow> key \<Rightarrow> 'v world \<Rightarrow> error option \<times> 'v world" where
  "cache_Del env k w = (cache_del_reply env (calls w) k, called (CacheDel k) w)"

text \<open>The type assertion \<open>b, ok := data.([]byte)\<close>: \<open>b\<close> is \<open>nil\<close> when it fails.\<close>
fun as_bytes :: "cval \<Rightarrow> bytes \<times> bool" where
  "as_bytes (CBytes b) = (b, True)"
| "as_bytes COther = ([], False)"

section \<open>Entry methods\<close>

text \<open>
  Modelled from the spec: the package \<open>entry\<close> (\<open>Encode\<close>, \<open>Decode\<close>, \<open>Data\<close>,
  \<open>EnableLocalCache\<close>) is not among the sources. The spec's data model gives an entry
  a key, a value, a remote TTL, an encoded payload "populated only after an explicit
  encode step" and a local-cache eligibility flag; its codec is
  \<open>Encode(value) \<rightarrow> bytes|error\<close> and \<open>Decode(bytes, into) \<rightarrow> error\<close>.
  \<open>Data\<close> reads the field \<open>data\<close>, \<open>EnableLocalCache\<close> the field \<open>enableLocalCache\<close>.
\<close>
definition Encode :: "'v env \<Rightarrow> ref \<Rightarrow> 'v world \<Rightarrow> error option \<times> 'v world" where
  "Encode env e w =
     (case marshal env (Value (heap w e)) of
        Inl err \<Rightarrow> (Some err, w)
      | Inr b \<Rightarrow> (None, w\<lparr>heap := (heap w)(e := (heap w e)\<lparr>data := b\<rparr>)\<rparr>))"

definition Decode :: "'v env \<Rightarrow> ref \<Rightarrow> bytes \<Rightarrow> 'v world \<Rightarrow> error option \<times> 'v world" where
  "Decode env e b w =
     (case unmarshal env b (Value (heap w e)) of
        (err, v) \<Rightarrow> (err, w\<lparr>heap := (heap w)(e := (heap w e)\<lparr>Value := v\<rparr>)\<rparr>))"

section \<open>The facade\<close>

subsection \<open>Set\<close>

definition Set :: "'v env \<Rightarrow> ref \<Rightarrow> 'v world \<Rightarrow> error option \<times> 'v world" where
  "Set env e w =
     (case Encode env e w of
        (Some err, w1) \<Rightarrow> (Some (Wrapf err ''encode key = %s, value = %+v''), w1)
      | (None, w1) \<Rightarrow>
          (case store_Set env (Key (heap w1 e)) (data (heap w1 e)) (Expiration (heap w1 e)) w1 of
             (Some err, w2) \<Rightarrow> (Some (Wrapf err ''store set key = %s, value = %+v''), w2)
           | (None, w2) \<Rightarrow>
               if enableLocalCache (heap w2 e) then
                 (case cache_Set env (Key (heap w2 e)) (data (heap w2 e))
                         (duration_div (Expiration (heap w2 e)) 2) w2 of
                    (Some err, w3) \<Rightarrow> (Some (Wrapf err ''cache set key = %s, value = %+v''), w3)
                  | (None, w3) \<Rightarrow> (None, w3))
               else (None, w2)))"

subsection \<open>MSet\<close>

text \<open>The first loop: encode each entry and queue its write on the pipeline.\<close>
fun MSet_queue :: "'v env \<Rightarrow> ref list \<Rightarrow> pcmd list \<Rightarrow> 'v world \<Rightarrow> (error + pcmd list) \<times> 'v world" where
  "MSet_queue env [] pipe w = (Inr pipe, w)"
| "MSet_queue env (e # es) pipe w =
     (case Encode env e w of
        (Some err, w1) \<Rightarrow> (Inl (Wrapf err ''encode key = %s, value = %+v''), w1)
      | (None, w1) \<Rightarrow>
          MSet_queue env es
            (pipe @ [PSet (Key (heap w1 e)) (data (heap w1 e)) (Expiration (heap w1 e))]) w1)"

text \<open>The second loop: write each locally cacheable entry into the local cache.\<close>
fun MSet_cache :: "'v env \<Rightarrow> ref list \<Rightarrow> 'v world \<Rightarrow> error option \<times> 'v world" where
  "MSet_cache env [] w = (None, w)"
| "MSet_cache env (e # es) w =
     (if enableLocalCache (heap w e) then
        (case cache_Set env (Key (heap w e)) (data (heap w e)) (Expiration (heap w e)) w of
           (Some err, w1) \<Rightarrow> (Some (Wrapf err ''cache set key = %s, value = %+v''), w1)
         | (None, w1) \<Rightarrow> MSet_cache env es w1)
      else MSet_cache env es w)"

definition MSet :: "'v env \<Rightarrow> ref list \<Rightarrow> 'v world \<Rightarrow> error option \<times> 'v world" where
  "MSet env es w =
     (case MSet_queue env es [] w of
        (Inl err, w1) \<Rightarrow> (Some err, w1)
      | (Inr pipe, w1) \<Rightarrow>
          (case pipe_Exec env pipe w1 of
             ((_, Some err), w2) \<Rightarrow> (Some (Wrapf err ''pipeline exec''), w2)
           | ((_, None), w2) \<Rightarrow> MSet_cache env es w2))"

subsection \<open>Get\<close>

text \<open>
  Lines 91 to 100: the local lookup. The result is \<open>Some r\<close> when \<open>Get\<close> returns \<open>r\<close>
  from inside this block and \<open>None\<close> when control leaves the block.
\<close>
definition Get_local :: "'v env \<Rightarrow> ref \<Rightarrow> 'v world \<Rightarrow> error option option \<times> 'v world" where
  "Get_local env e w =
     (if enableLocalCache (heap w e) then
        (case cache_Get env (Key (heap w e)) w of
           ((dat, None), w1) \<Rightarrow>
             (case as_bytes dat of
                (b, ok) \<Rightarrow>
                  (case Decode env e b w1 of
                     (Some err, w2) \<Rightarrow>
                       if ok then (Some (Some (Wrapf err ''decode key = %s, data = %s'')), w2)
                       else (Some None, w2)
                   | (None, w2) \<Rightarrow> (Some None, w2)))
         | ((dat, Some err), w1) \<Rightarrow> (None, w1))
      else (None, w))"

text \<open>Lines 101 to 120: the remote lookup.\<close>
definition Get_remote :: "'v env \<Rightarrow> ref \<Rightarrow> 'v world \<Rightarrow> error option \<times> 'v world" where
  "Get_remote env e w =
     (case store_Get env (Key (heap w e)) w of
        ((b, err), w1) \<Rightarrow>
          if err = Some RedisNil then (Some RedisNil, called (SubmitAsync (BackfillJob e)) w1)
          else
            (case err of
               None \<Rightarrow>
                 (case Decode env e b w1 of
                    (Some derr, w2) \<Rightarrow> (Some (Wrapf derr ''decode key = %s, data = %s''), w2)
                  | (None, w2) \<Rightarrow> (None, w2))
             | Some err' \<Rightarrow> (Some (Wrapf err' ''store get key = %s''), w1)))"

definition Get :: "'v env \<Rightarrow> ref \<Rightarrow> 'v world \<Rightarrow> error option \<times> 'v world" where
  "Get env e w =
     (case Get_local env e w of
        (Some r, w1) \<Rightarrow> (r, w1)
      | (None, w1) \<Rightarrow> Get_remote env e w1)"

subsection \<open>batchGet and MGet\<close>

text \<open>
  The first loop of \<open>batchGet\<close> (lines 127 to 139). \<open>pipe\<close> is the pipeline's queue,
  \<open>found\<close> the set of entries marked as found, \<open>ret\<close> the map from queued command to
  entry. \<open>Inl err\<close> is the \<open>return nil, err\<close> of line 132, where \<open>err\<close> may be \<open>nil\<close>.
\<close>
fun batchGet_scan ::
  "'v env \<Rightarrow> ref list \<Rightarrow> pcmd list \<Rightarrow> ref set \<Rightarrow> (nat \<rightharpoonup> ref) \<Rightarrow> 'v world \<Rightarrow>
   (error option + pcmd list \<times> ref set \<times> (nat \<rightharpoonup> ref)) \<times> 'v world" where
  "batchGet_scan env [] pipe found ret w = (Inr (pipe, found, ret), w)"
| "batchGet_scan env (e # es) pipe found ret w =
     (if enableLocalCache (heap w e) then
        (case cache_Get env (Key (heap w e)) w of
           ((b, err), w1) \<Rightarrow>
             (case as_bytes b of
                (dat, ok) \<Rightarrow>
                  if ok \<and> err = None then
                    (case Decode env e dat w1 of (derr, w2) \<Rightarrow> (Inl derr, w2))
                  else batchGet_scan env es pipe (insert e found) ret w1))
      else
        batchGet_scan env es (pipe @ [PGet (Key (heap w e))]) found (ret(length pipe \<mapsto> e)) w)"

text \<open>The second loop (lines 145 to 172), over what \<open>pipe.Exec\<close> returned.\<close>
fun batchGet_collect ::
  "'v env \<Rightarrow> cmder list \<Rightarrow> (nat \<rightharpoonup> ref) \<Rightarrow> ref set \<Rightarrow> 'v world \<Rightarrow> (error + ref set) \<times> 'v world" where
  "batchGet_collect env [] ret found w = (Inr found, w)"
| "batchGet_collect env (OtherCmd # cs) ret found w = batchGet_collect env cs ret found w"
| "batchGet_collect env (StatusCmd cmd err # cs) ret found w = batchGet_collect env cs ret found w"
| "batchGet_collect env (StringCmd cmd b err # cs) ret found w =
     (case ret cmd of
        None \<Rightarrow> batchGet_collect env cs ret found w
      | Some e \<Rightarrow>
          if err = Some RedisNil then
            batchGet_collect env cs ret found (called (SubmitAsync (BackfillJob e)) w)
          else
            (case err of
               None \<Rightarrow>
                 (case Decode env e b w of
                    (Some derr, w1) \<Rightarrow> (Inl derr, w1)
                  | (None, w1) \<Rightarrow> batchGet_collect env cs ret (insert e found) w1)
             | Some err' \<Rightarrow> (Inl err', w)))"

text \<open>A \<open>nil\<close> slice is the empty list.\<close>
definition batchGet :: "'v env \<Rightarrow> ref list \<Rightarrow> 'v world \<Rightarrow> (ref list \<times> error option) \<times> 'v world" where
  "batchGet env es w =
     (case batchGet_scan env es [] {} Map.empty w of
        (Inl err, w1) \<Rightarrow> (([], err), w1)
      | (Inr (pipe, found, ret), w1) \<Rightarrow>
          (case pipe_Exec env pipe w1 of
             ((cmders, Some err), w2) \<Rightarrow> (([], Some err), w2)
           | ((cmders, None), w2) \<Rightarrow>
               (case batchGet_collect env cmders ret found w2 of
                  (Inl err, w3) \<Rightarrow> (([], Some err), w3)
                | (Inr found', w3) \<Rightarrow> ((filter (\<lambda>e. e \<notin> found') es, None), w3))))"

text \<open>
  Modelled from the spec: the package \<open>mass\<close> (\<open>mass.New\<close>, \<open>Iter\<close>) is not among the
  sources. The spec's BatchPlanner, "given a total count N and a maximum chunk size C,
  produces a lazy sequence of (offset, length) pairs covering [0,N) with each
  length \<le> C", and \<open>MGet\<close> over N keys makes \<open>ceil(N/C)\<close> chunks: full chunks from
  offset 0, the last one with what is left.
\<close>
function mass_Iter :: "nat \<Rightarrow> nat \<Rightarrow> nat \<Rightarrow> (nat \<times> nat) list" where
  "mass_Iter start tot sz =
     (if tot \<le> start \<or> sz = 0 then []
      else (start, min sz (tot - start)) # mass_Iter (start + sz) tot sz)"
  by pat_completeness auto
termination
  by (relation "measure (\<lambda>(start, tot, sz). tot - start)") auto

declare mass_Iter.simps [simp del]

text \<open>The loop of \<open>MGet\<close> over the chunks; \<open>es[start : start+length]\<close> is \<open>take length (drop start es)\<close>.\<close>
fun MGet_loop ::
  "'v env \<Rightarrow> ref list \<Rightarrow> (nat \<times> nat) list \<Rightarrow> ref list \<Rightarrow> 'v world \<Rightarrow> (ref list \<times> error option) \<times> 'v world" where
  "MGet_loop env es [] missEntries w = ((missEntries, None), w)"
| "MGet_loop env es ((start, len) # batch) missEntries w =
     (case batchGet env (take len (drop start es)) w of
        ((ee, Some err), w1) \<Rightarrow> (([], Some err), w1)
      | ((ee, None), w1) \<Rightarrow> MGet_loop env es batch (missEntries @ ee) w1)"

definition MGet :: "'v env \<Rightarrow> ref list \<Rightarrow> 'v world \<Rightarrow> (ref list \<times> error option) \<times> 'v world" where
  "MGet env es w = MGet_loop env es (mass_Iter 0 (length es) 3000) [] w"

subsection \<open>Del\<close>

fun Del_cache :: "'v env \<Rightarrow> key list \<Rightarrow> 'v world \<Rightarrow> error option \<times> 'v world" where
  "Del_cache env [] w = (None, w)"
| "Del_cache env (k # ks) w =
     (case cache_Del env k w of
        (Some err, w1) \<Rightarrow> (Some (Wrapf err ''delete cache: key = %s''), w1)
      | (None, w1) \<Rightarrow> Del_cache env ks w1)"

definition Del :: "'v env \<Rightarrow> key list \<Rightarrow> 'v world \<Rightarrow> error option \<times> 'v world" where
  "Del env keys w =
     (if length keys = 0 then (None, w)
      else
        (case store_Del env keys w of
           (Some err, w1) \<Rightarrow> (Some (Wrapf err ''store del, keys = %+v''), w1)
         | (None, w1) \<Rightarrow> Del_cache env keys w1))"

subsection \<open>The invalidation subscriber\<close>

text \<open>The loop inside the job of \<open>sub\<close> (lines 230 to 234): a failed delete is printed.\<close>
fun sub_evict :: "'v env \<Rightarrow> key list \<Rightarrow> 'v world \<Rightarrow> 'v world" where
  "sub_evict env [] w = w"
| "sub_evict env (k # ks) w =
     (case cache_Del env k w of
        (Some err, w1) \<Rightarrow>
          sub_evict env ks (w1\<lparr>stdout := stdout w1 @ [''CacheDeleteKey key = %s, err = %#v'']\<rparr>)
      | (None, w1) \<Rightarrow> sub_evict env ks w1)"

text \<open>The function of the job of \<open>sub\<close> (lines 224 to 236).\<close>
definition sub_Fn :: "'v env \<Rightarrow> message \<Rightarrow> 'v world \<Rightarrow> error option \<times> 'v world" where
  "sub_Fn env m w =
     (case unmarshal_keys env (Payload m) of
        Inl err \<Rightarrow> (Some err, w)
      | Inr keys \<Rightarrow> (None, sub_evict env keys w))"

text \<open>What the dispatcher does when it runs a job: it applies the job's function to its argument.\<close>
fun run_job :: "'v env \<Rightarrow> job \<Rightarrow> 'v world \<Rightarrow> error option \<times> 'v world" where
  "run_job env (BackfillJob e) w = Set env e w"
| "run_job env (EvictJob m) w = sub_Fn env m w"

text \<open>The loop over the messages of the subscription (lines 221 to 238).\<close>
fun sub_loop :: "message list \<Rightarrow> 'v world \<Rightarrow> 'v world" where
  "sub_loop [] w = w"
| "sub_loop (m # ms) w = sub_loop ms (called (SubmitAsync (EvictJob m)) w)"

text \<open>
  The background task of \<open>sub\<close>, for a subscription that delivers the messages \<open>ms\<close>
  and is then closed. The name of the channel is a constant declared outside
  \<open>freesia.go\<close>, so it is a parameter.
\<close>
definition sub :: "'v env \<Rightarrow> string \<Rightarrow> message list \<Rightarrow> 'v world \<Rightarrow> 'v world" where
  "sub env channel ms w =
     (let w1 = sub_loop ms (called (Subscribe channel) w);
          w2 = called PubSubClose w1
      in case pubsub_close_reply env (calls w1) of
           Some err \<Rightarrow> w2\<lparr>stdout := stdout w2 @ [''pubsub err = %#v'']\<rparr>
         | None \<Rightarrow> w2)"

section \<open>Observing a run\<close>

text \<open>The calls made between two worlds of one run.\<close>
definition issued :: "'v world \<Rightarrow> 'v world \<Rightarrow> call list" where
  "issued w w' = drop (length (calls w)) (calls w')"

text \<open>
  The jobs handed to the dispatcher, the pipelined batches and the local-cache writes
  among some calls.
\<close>
fun submitted :: "call list \<Rightarrow> job list" where
  "submitted [] = []"
| "submitted (SubmitAsync j # cs) = j # submitted cs"
| "submitted (c # cs) = submitted cs"

fun batches :: "call list \<Rightarrow> pcmd list list" where
  "batches [] = []"
| "batches (PipeExec p # cs) = p # batches cs"
| "batches (c # cs) = batches cs"

fun cache_writes :: "call list \<Rightarrow> (key \<times> bytes \<times> duration) list" where
  "cache_writes [] = []"
| "cache_writes (CacheSet k b t # cs) = (k, b, t) # cache_writes cs"
| "cache_writes (c # cs) = cache_writes cs"

text \<open>
  The store writes a run is known to have made, read off the store's own answers: a
  single \<open>Set\<close> answered without error, and each \<open>Set\<close> of a pipelined batch whose own
  result carries no error. \<open>h\<close> is the trace before the calls \<open>cs\<close>.
\<close>
fun acked :: "pcmd list \<Rightarrow> cmder list \<Rightarrow> (key \<times> bytes \<times> duration) list" where
  "acked pipe [] = []"
| "acked pipe (StatusCmd i None # cs) =
     (if i < length pipe then (case pipe ! i of PSet k b t \<Rightarrow> [(k, b, t)] | PGet k \<Rightarrow> []) else [])
     @ acked pipe cs"
| "acked pipe (c # cs) = acked pipe cs"

fun store_writes :: "'v env \<Rightarrow> call list \<Rightarrow> call list \<Rightarrow> (key \<times> bytes \<times> duration) list" where
  "store_writes env h [] = []"
| "store_writes env h (StoreSet k b t # cs) =
     (if store_set_reply env h k b t = None then [(k, b, t)] else [])
     @ store_writes env (h @ [StoreSet k b t]) cs"
| "store_writes env h (PipeExec p # cs) =
     acked p (fst (pipe_exec_reply env h p)) @ store_writes env (h @ [PipeExec p]) cs"
| "store_writes env h (c # cs) = store_writes env (h @ [c]) cs"

text \<open>
  The pipeline the first loop of \<open>batchGet\<close> builds for the entries \<open>es\<close>: a \<open>Get\<close> for
  each entry that is not locally cacheable, in order.
\<close>
definition chunk_batch :: "'v world \<Rightarrow> ref list \<Rightarrow> pcmd list" where
  "chunk_batch w es =
     map (\<lambda>e. PGet (Key (heap w e))) (filter (\<lambda>e. \<not> enableLocalCache (heap w e)) es)"

text \<open>The world once the entries \<open>es\<close> have been encoded.\<close>
definition encoded :: "'v env \<Rightarrow> ref list \<Rightarrow> 'v world \<Rightarrow> 'v world" where
  "encoded env es w =
     w\<lparr>heap := (\<lambda>r. if r \<in> set es then (heap w r)\<lparr>data := projr (marshal env (Value (heap w r)))\<rparr>
                     else heap w r)\<rparr>"

text \<open>The write queued on the pipeline for an entry, with the payload its value encodes to.\<close>
definition queued :: "'v env \<Rightarrow> 'v world \<Rightarrow> ref \<Rightarrow> pcmd" where
  "queued env w e = PSet (Key (heap w e)) (projr (marshal env (Value (heap w e)))) (Expiration (heap w e))"

text \<open>The locally cacheable entries of a list, and the local write of \<open>MSet\<close> for an entry.\<close>
definition eligible :: "'v world \<Rightarrow> ref list \<Rightarrow> ref list" where
  "eligible w es = filter (\<lambda>e. enableLocalCache (heap w e)) es"

definition cached :: "'v world \<Rightarrow> ref \<Rightarrow> call" where
  "cached w e = CacheSet (Key (heap w e)) (data (heap w e)) (Expiration (heap w e))"

text \<open>
  One world follows another in a run: the calls \<open>cs\<close> have been added, and no entry
  has changed its key, its TTL or its eligibility.
\<close>
definition steps :: "'v world \<Rightarrow> 'v world \<Rightarrow> call list \<Rightarrow> bool" where
  "steps w w' cs \<longleftrightarrow>
     calls w' = calls w @ cs
     \<and> (\<forall>r. Key (heap w' r) = Key (heap w r)
            \<and> Expiration (heap w' r) = Expiration (heap w r)
            \<and> enableLocalCache (heap w' r) = enableLocalCache (heap w r))"

text \<open>
  The local cache never answers with a byte slice for the key of a locally cacheable
  entry among \<open>es\<close>.
\<close>
definition never_hit :: "'v env \<Rightarrow> 'v world \<Rightarrow> ref list \<Rightarrow> bool" where
  "never_hit env w es \<longleftrightarrow>
     (\<forall>e \<in> set es. enableLocalCache (heap w e) \<longrightarrow>
        (\<forall>h dat. cache_get_reply env h (Key (heap w e)) \<noteq> (CBytes dat, None)))"


text \<open>No entry has changed its key or its eligibility between two worlds.\<close>
definition same_identity :: "'v world \<Rightarrow> 'v world \<Rightarrow> bool" where
  "same_identity w w' \<longleftrightarrow>
     (\<forall>r. Key (heap w' r) = Key (heap w r)
         \<and> enableLocalCache (heap w' r) = enableLocalCache (heap w r))"

section \<open>A concrete instance\<close>

text \<open>
  A pipeline's answer: \<open>answer\<close> gives each queued command its result, and \<open>Exec\<close>
  returns the error of the first command that has one.
\<close>
fun replies :: "(nat \<Rightarrow> pcmd \<Rightarrow> cmder) \<Rightarrow> nat \<Rightarrow> pcmd list \<Rightarrow> cmder list" where
  "replies answer i [] = []"
| "replies answer i (c # cs) = answer i c # replies answer (Suc i) cs"

fun cmdsFirstErr :: "cmder list \<Rightarrow> error option" where
  "cmdsFirstErr [] = None"
| "cmdsFirstErr (StringCmd i b (Some err) # cs) = Some err"
| "cmdsFirstErr (StatusCmd i (Some err) # cs) = Some err"
| "cmdsFirstErr (c # cs) = cmdsFirstErr cs"

text \<open>An empty store: a \<open>Get\<close> answers \<open>redis.Nil\<close>, a \<open>Set\<close> succeeds.\<close>
fun answer_empty :: "nat \<Rightarrow> pcmd \<Rightarrow> cmder" where
  "answer_empty i (PGet k) = StringCmd i [] (Some RedisNil)"
| "answer_empty i (PSet k b t) = StatusCmd i None"


text \<open>A store that fails every command.\<close>
fun answer_down :: "nat \<Rightarrow> pcmd \<Rightarrow> cmder" where
  "answer_down i (PGet k) = StringCmd i [] (Some (Failure 5))"
| "answer_down i (PSet k b t) = StatusCmd i (Some (Failure 5))"

text \<open>A store that applies the first command of a batch and fails the others.\<close>
fun answer_partial :: "nat \<Rightarrow> pcmd \<Rightarrow> cmder" where
  "answer_partial i (PGet k) = StringCmd i [7] (if i = 0 then None else Some (Failure 5))"
| "answer_partial i (PSet k b t) = StatusCmd i (if i = 0 then None else Some (Failure 5))"

text \<open>
  Collaborators for concrete runs: values are numbers encoded in one byte, a payload
  lists one-character keys, both tiers are empty and every call succeeds. Variants
  are record updates of this one.
\<close>
definition env_empty :: "nat env" where
  "env_empty = \<lparr>
     marshal = (\<lambda>v. Inr [word_of_nat v]),
     unmarshal = (\<lambda>b v. case b of [x] \<Rightarrow> (None, unat x) | _ \<Rightarrow> (Some (Failure 1), v)),
     unmarshal_keys = (\<lambda>p. if p = [] then Inl (Failure 2) else Inr (map (\<lambda>c. [c]) p)),
     store_set_reply = (\<lambda>h k b t. None),
     store_get_reply = (\<lambda>h k. ([], Some RedisNil)),
     store_del_reply = (\<lambda>h ks. None),
     pipe_exec_reply = (\<lambda>h pipe. (replies answer_empty 0 pipe,
                                    cmdsFirstErr (replies answer_empty 0 pipe))),
     pubsub_close_reply = (\<lambda>h. None),
     cache_set_reply = (\<lambda>h k b t. None),
     cache_get_reply = (\<lambda>h k. (COther, Some (Failure 3))),
     cache_del_reply = (\<lambda>h k. None)\<rparr>"

text \<open>
  A heap where the entry at address \<open>r\<close> has a key of \<open>r + 1\<close> letters, the value \<open>r\<close>,
  a TTL of 10 and is locally cacheable when \<open>r\<close> is even.
\<close>
definition w_init :: "nat world" where
  "w_init = \<lparr>heap = (\<lambda>r. \<lparr>Key = replicate (Suc r) CHR ''k'', Value = r, Expiration = 10,
                            data = [], enableLocalCache = even r\<rparr>),
             calls = [], stdout = []\<rparr>"

text \<open>
  Variants: the local cache answers every lookup with the byte slice \<open>b\<close>, or with
  a value that is not a byte slice.
\<close>
definition env_hit :: "bytes \<Rightarrow> nat env" where
  "env_hit b = env_empty\<lparr>cache_get_reply := (\<lambda>h k. (CBytes b, None))\<rparr>"

definition env_other :: "nat env" where
  "env_other = env_empty\<lparr>cache_get_reply := (\<lambda>h k. (COther, None))\<rparr>"

text \<open>Variants: the value \<open>n\<close> cannot be encoded; every pipelined batch fails.\<close>
definition env_noenc :: "nat \<Rightarrow> nat env" where
  "env_noenc n = env_empty\<lparr>marshal := (\<lambda>v. if v = n then Inl (Failure 4) else Inr [word_of_nat v])\<rparr>"

definition env_pipe_down :: "nat env" where
  "env_pipe_down =
     env_empty\<lparr>pipe_exec_reply := (\<lambda>h pipe. (replies answer_down 0 pipe, Some (Failure 5)))\<rparr>"

text \<open>
  Variants: a failing batch whose first command was applied; a store that holds
  every key.
\<close>
definition env_pipe_partial :: "nat env" where
  "env_pipe_partial =
     env_empty\<lparr>pipe_exec_reply := (\<lambda>h pipe. (replies answer_partial 0 pipe,
                                               cmdsFirstErr (replies answer_partial 0 pipe)))\<rparr>"



text \<open>Variants: the local cache cannot delete the key \<open>k\<close>; the store cannot delete.\<close>
definition env_stuck :: "key \<Rightarrow> nat env" where
  "env_stuck k = env_empty\<lparr>cache_del_reply := (\<lambda>h x. if x = k then Some (Failure 6) else None)\<rparr>"

definition env_store_down :: "nat env" where
  "env_store_down = env_empty\<lparr>store_del_reply := (\<lambda>h ks. Some (Failure 7))\<rparr>"

section \<open>Properties of Get\<close>

lemmas call_defs =
  cache_Get_def store_Get_def cache_Set_def store_Set_def store_Del_def cache_Del_def
  pipe_Exec_def called_def

lemma issued_append [simp]: "issued w (w'\<lparr>calls := calls w @ cs\<rparr>) = cs"
  by (simp add: issued_def)

lemma issued_same [simp]: "issued w w = []"
  by (simp add: issued_def)

lemma Decode_calls [simp]: "calls (snd (Decode env e b w)) = calls w"
  by (simp add: Decode_def split: prod.splits)

text \<open>
  C2. In \<open>Get\<close> on a locally cacheable entry: when the local lookup fails, \<open>Get\<close>
  goes on with the remote lookup, its next call being the store's \<open>Get\<close>; when the
  lookup returns a byte slice, a decode failure is returned wrapped, a decode success
  is returned as success, and in both cases the lookup is the only call made.
\<close>
theorem Get_local_policy:
  "enableLocalCache (heap w e) \<Longrightarrow>
   (snd (cache_get_reply env (calls w) (Key (heap w e))) \<noteq> None \<longrightarrow>
      Get env e w = Get_remote env e (called (CacheGet (Key (heap w e))) w)
      \<and> take 2 (issued w (snd (Get env e w))) = [CacheGet (Key (heap w e)), StoreGet (Key (heap w e))])
   \<and> (\<forall>b. cache_get_reply env (calls w) (Key (heap w e)) = (CBytes b, None) \<longrightarrow>
        (case Decode env e b (called (CacheGet (Key (heap w e))) w) of
           (Some derr, w2) \<Rightarrow> Get env e w = (Some (Wrapf derr ''decode key = %s, data = %s''), w2)
         | (None, w2) \<Rightarrow> Get env e w = (None, w2))
        \<and> issued w (snd (Get env e w)) = [CacheGet (Key (heap w e))])"
proof (intro conjI impI allI)
  assume elig: "enableLocalCache (heap w e)"
    and miss: "snd (cache_get_reply env (calls w) (Key (heap w e))) \<noteq> None"
  then obtain dat cerr where r: "cache_get_reply env (calls w) (Key (heap w e)) = (dat, Some cerr)"
    by (cases "cache_get_reply env (calls w) (Key (heap w e))") auto
  have loc: "Get_local env e w = (None, called (CacheGet (Key (heap w e))) w)"
    using elig r by (simp add: Get_local_def cache_Get_def)
  show run: "Get env e w = Get_remote env e (called (CacheGet (Key (heap w e))) w)"
    by (simp add: Get_def loc)
  obtain bs serr where s: "store_get_reply env (calls w @ [CacheGet (Key (heap w e))]) (Key (heap w e)) = (bs, serr)"
    by (cases "store_get_reply env (calls w @ [CacheGet (Key (heap w e))]) (Key (heap w e))") auto
  show "take 2 (issued w (snd (Get env e w))) = [CacheGet (Key (heap w e)), StoreGet (Key (heap w e))]"
    unfolding run using s
    by (cases serr; cases "Decode env e bs (w\<lparr>calls := calls w @ [CacheGet (Key (heap w e)), StoreGet (Key (heap w e))]\<rparr>)")
       (auto simp: Get_remote_def store_Get_def called_def issued_def Decode_def split: option.splits prod.splits)
next
  fix b
  assume elig: "enableLocalCache (heap w e)"
    and hit: "cache_get_reply env (calls w) (Key (heap w e)) = (CBytes b, None)"
  obtain derr w2 where d: "Decode env e b (called (CacheGet (Key (heap w e))) w) = (derr, w2)"
    by (cases "Decode env e b (called (CacheGet (Key (heap w e))) w)") auto
  have c2: "calls w2 = calls w @ [CacheGet (Key (heap w e))]"
  proof -
    have "calls (snd (Decode env e b (called (CacheGet (Key (heap w e))) w))) = calls w2"
      by (simp only: d snd_conv)
    then show ?thesis by (simp add: called_def)
  qed
  have loc: "Get_local env e w =
      (case derr of Some err \<Rightarrow> (Some (Some (Wrapf err ''decode key = %s, data = %s'')), w2)
                  | None \<Rightarrow> (Some None, w2))"
    using elig hit d by (simp add: Get_local_def cache_Get_def split: option.splits)
  show "case Decode env e b (called (CacheGet (Key (heap w e))) w) of
           (Some derr, w2) \<Rightarrow> Get env e w = (Some (Wrapf derr ''decode key = %s, data = %s''), w2)
         | (None, w2) \<Rightarrow> Get env e w = (None, w2)"
    by (cases derr) (simp_all add: d Get_def loc)
  show "issued w (snd (Get env e w)) = [CacheGet (Key (heap w e))]"
    by (cases derr) (simp_all add: Get_def loc issued_def c2)
qed

theorem Get_local_policy_witness:
  "enableLocalCache (heap w_init 0)
   \<and> snd (cache_get_reply env_empty (calls w_init) (Key (heap w_init 0))) \<noteq> None
   \<and> Get env_empty 0 w_init = Get_remote env_empty 0 (called (CacheGet ''k'') w_init)
   \<and> take 2 (issued w_init (snd (Get env_empty 0 w_init))) = [CacheGet ''k'', StoreGet ''k'']
   \<and> cache_get_reply (env_hit [7]) (calls w_init) (Key (heap w_init 0)) = (CBytes [7], None)
   \<and> fst (Get (env_hit [7]) 0 w_init) = None
   \<and> Value (heap (snd (Get (env_hit [7]) 0 w_init)) 0) = 7
   \<and> issued w_init (snd (Get (env_hit [7]) 0 w_init)) = [CacheGet ''k'']
   \<and> cache_get_reply (env_hit []) (calls w_init) (Key (heap w_init 0)) = (CBytes [], None)
   \<and> fst (Get (env_hit []) 0 w_init) = Some (Wrapf (Failure 1) ''decode key = %s, data = %s'')
   \<and> issued w_init (snd (Get (env_hit []) 0 w_init)) = [CacheGet ''k'']"
proof -
  have elig: "enableLocalCache (heap w_init 0)"
    by (simp add: w_init_def)
  have key: "Key (heap w_init 0) = ''k''"
    by (simp add: w_init_def)
  have miss: "snd (cache_get_reply env_empty (calls w_init) (Key (heap w_init 0))) \<noteq> None"
    by (simp add: env_empty_def)
  have hit: "cache_get_reply (env_hit b) (calls w_init) (Key (heap w_init 0)) = (CBytes b, None)" for b
    by (simp add: env_hit_def env_empty_def)
  have good: "Decode (env_hit [7]) 0 [7] (called (CacheGet (Key (heap w_init 0))) w_init)
      = (None, w_init\<lparr>heap := (heap w_init)(0 := (heap w_init 0)\<lparr>Value := 7\<rparr>),
                       calls := [CacheGet ''k'']\<rparr>)"
    by (simp add: Decode_def env_hit_def env_empty_def called_def w_init_def)
  have bad: "fst (Decode (env_hit []) 0 [] (called (CacheGet (Key (heap w_init 0))) w_init))
      = Some (Failure 1)"
    by (simp add: Decode_def env_hit_def env_empty_def)
  note through = Get_local_policy [OF elig, of env_empty, THEN conjunct1, THEN mp, OF miss]
  note on_good = Get_local_policy [OF elig, of "env_hit [7]", THEN conjunct2, THEN spec, THEN mp, OF hit]
  note on_bad = Get_local_policy [OF elig, of "env_hit []", THEN conjunct2, THEN spec, THEN mp, OF hit]
  have a: "Get env_empty 0 w_init = Get_remote env_empty 0 (called (CacheGet ''k'') w_init)"
    using through [THEN conjunct1] key by simp
  have b: "take 2 (issued w_init (snd (Get env_empty 0 w_init))) = [CacheGet ''k'', StoreGet ''k'']"
    using through [THEN conjunct2] key by simp
  have c: "Get (env_hit [7]) 0 w_init
      = (None, w_init\<lparr>heap := (heap w_init)(0 := (heap w_init 0)\<lparr>Value := 7\<rparr>),
                       calls := [CacheGet ''k'']\<rparr>)"
    using on_good [THEN conjunct1] good by simp
  have d: "issued w_init (snd (Get (env_hit [7]) 0 w_init)) = [CacheGet ''k'']"
    using on_good [THEN conjunct2] key by simp
  have e: "fst (Get (env_hit []) 0 w_init) = Some (Wrapf (Failure 1) ''decode key = %s, data = %s'')"
    using on_bad [THEN conjunct1] bad
    by (cases "Decode (env_hit []) 0 [] (called (CacheGet (Key (heap w_init 0))) w_init)") auto
  have f: "issued w_init (snd (Get (env_hit []) 0 w_init)) = [CacheGet ''k'']"
    using on_bad [THEN conjunct2] key by simp
  have c1: "fst (Get (env_hit [7]) 0 w_init) = None"
    and c2: "Value (heap (snd (Get (env_hit [7]) 0 w_init)) 0) = 7"
    by (simp_all add: c)
  from elig miss a b hit [of "[7]"] c1 c2 d hit [of "[]"] e f show ?thesis
    by blast
qed

text \<open>
  C3. When the local lookup (made only for a locally cacheable entry) fails and the
  store answers \<open>redis.Nil\<close>, \<open>Get\<close> returns \<open>redis.Nil\<close> itself, unwrapped, leaves
  the entry as it was, and hands the dispatcher one job, the backfill job of this
  entry; running that job is running \<open>Set\<close> on the entry.
\<close>
theorem Get_absent:
  "(enableLocalCache (heap w e) \<longrightarrow> snd (cache_get_reply env (calls w) (Key (heap w e))) \<noteq> None) \<Longrightarrow>
   snd (store_get_reply env
          (calls w @ (if enableLocalCache (heap w e) then [CacheGet (Key (heap w e))] else []))
          (Key (heap w e))) = Some RedisNil \<Longrightarrow>
   Get env e w =
     (Some RedisNil,
      w\<lparr>calls := calls w @ (if enableLocalCache (heap w e) then [CacheGet (Key (heap w e))] else [])
                   @ [StoreGet (Key (heap w e)), SubmitAsync (BackfillJob e)]\<rparr>)
   \<and> submitted (issued w (snd (Get env e w))) = [BackfillJob e]
   \<and> (\<forall>w'. run_job env (BackfillJob e) w' = Set env e w')"
proof (cases "enableLocalCache (heap w e)")
  case True
  assume miss: "enableLocalCache (heap w e) \<longrightarrow>
      snd (cache_get_reply env (calls w) (Key (heap w e))) \<noteq> None"
    and nil: "snd (store_get_reply env
          (calls w @ (if enableLocalCache (heap w e) then [CacheGet (Key (heap w e))] else []))
          (Key (heap w e))) = Some RedisNil"
  from miss True obtain dat cerr
    where c: "cache_get_reply env (calls w) (Key (heap w e)) = (dat, Some cerr)"
    by (cases "cache_get_reply env (calls w) (Key (heap w e))") auto
  from nil True obtain bs
    where s: "store_get_reply env (calls w @ [CacheGet (Key (heap w e))]) (Key (heap w e))
              = (bs, Some RedisNil)"
    by (cases "store_get_reply env (calls w @ [CacheGet (Key (heap w e))]) (Key (heap w e))") auto
  show ?thesis using True c s
    by (simp add: Get_def Get_local_def Get_remote_def call_defs issued_def)
next
  case False
  assume nil: "snd (store_get_reply env
          (calls w @ (if enableLocalCache (heap w e) then [CacheGet (Key (heap w e))] else []))
          (Key (heap w e))) = Some RedisNil"
  from nil False obtain bs
    where s: "store_get_reply env (calls w) (Key (heap w e)) = (bs, Some RedisNil)"
    by (cases "store_get_reply env (calls w) (Key (heap w e))") auto
  show ?thesis using False s
    by (simp add: Get_def Get_local_def Get_remote_def call_defs issued_def)
qed

theorem Get_absent_witness:
  "snd (cache_get_reply env_empty (calls w_init) (Key (heap w_init 0))) \<noteq> None
   \<and> snd (store_get_reply env_empty (calls w_init @ [CacheGet ''k'']) (Key (heap w_init 0))) = Some RedisNil
   \<and> Get env_empty 0 w_init =
       (Some RedisNil, w_init\<lparr>calls := [CacheGet ''k'', StoreGet ''k'', SubmitAsync (BackfillJob 0)]\<rparr>)
   \<and> \<not> enableLocalCache (heap w_init 1)
   \<and> Get env_empty 1 w_init =
       (Some RedisNil, w_init\<lparr>calls := [StoreGet ''kk'', SubmitAsync (BackfillJob 1)]\<rparr>)"
  using Get_absent [of w_init 0 env_empty] Get_absent [of w_init 1 env_empty]
  by (simp add: w_init_def env_empty_def)

text \<open>
  C10. When the local lookup for a locally cacheable entry succeeds with a value that
  is not a byte slice, \<open>Get\<close> decodes the \<open>nil\<close> slice into the entry and returns
  success whatever that decode reports; the lookup is the only call made, so the
  store is not consulted.
\<close>
theorem Get_nonbytes_hit:
  "enableLocalCache (heap w e) \<Longrightarrow>
   cache_get_reply env (calls w) (Key (heap w e)) = (COther, None) \<Longrightarrow>
   Get env e w = (None, snd (Decode env e [] (called (CacheGet (Key (heap w e))) w)))
   \<and> issued w (snd (Get env e w)) = [CacheGet (Key (heap w e))]"
proof -
  assume elig: "enableLocalCache (heap w e)"
    and other: "cache_get_reply env (calls w) (Key (heap w e)) = (COther, None)"
  obtain derr w2 where d: "Decode env e [] (called (CacheGet (Key (heap w e))) w) = (derr, w2)"
    by (cases "Decode env e [] (called (CacheGet (Key (heap w e))) w)") auto
  have c2: "calls w2 = calls w @ [CacheGet (Key (heap w e))]"
  proof -
    have "calls (snd (Decode env e [] (called (CacheGet (Key (heap w e))) w))) = calls w2"
      by (simp only: d snd_conv)
    then show ?thesis by (simp add: called_def)
  qed
  have loc: "Get_local env e w = (Some None, w2)"
    using elig other d by (simp add: Get_local_def cache_Get_def split: option.splits)
  show ?thesis
    by (simp add: Get_def loc d issued_def c2)
qed

theorem Get_nonbytes_hit_witness:
  "enableLocalCache (heap w_init 0)
   \<and> cache_get_reply env_other (calls w_init) (Key (heap w_init 0)) = (COther, None)
   \<and> fst (Decode env_other 0 [] (called (CacheGet ''k'') w_init)) = Some (Failure 1)
   \<and> fst (Get env_other 0 w_init) = None
   \<and> issued w_init (snd (Get env_other 0 w_init)) = [CacheGet ''k'']"
proof -
  have elig: "enableLocalCache (heap w_init 0)"
    by (simp add: w_init_def)
  have reply: "cache_get_reply env_other (calls w_init) (Key (heap w_init 0)) = (COther, None)"
    by (simp add: env_other_def env_empty_def)
  have failed: "fst (Decode env_other 0 [] (called (CacheGet ''k'') w_init)) = Some (Failure 1)"
    by (simp add: Decode_def env_other_def env_empty_def)
  have key: "Key (heap w_init 0) = ''k''"
    by (simp add: w_init_def)
  note run = Get_nonbytes_hit [OF elig reply]
  have ok: "fst (Get env_other 0 w_init) = None"
    using run [THEN conjunct1] by simp
  have only: "issued w_init (snd (Get env_other 0 w_init)) = [CacheGet ''k'']"
    using run [THEN conjunct2] key by simp
  from elig reply failed ok only show ?thesis
    by blast
qed

section \<open>Properties of Set and MSet\<close>

lemma encoded_Nil: "encoded env [] w = w"
  by (simp add: encoded_def)

lemma encoded_fields [simp]:
  "Key (heap (encoded env es w) r) = Key (heap w r)"
  "Value (heap (encoded env es w) r) = Value (heap w r)"
  "Expiration (heap (encoded env es w) r) = Expiration (heap w r)"
  "enableLocalCache (heap (encoded env es w) r) = enableLocalCache (heap w r)"
  "calls (encoded env es w) = calls w"
  "stdout (encoded env es w) = stdout w"
  by (simp_all add: encoded_def)

lemma encoded_data:
  "data (heap (encoded env es w) r) =
     (if r \<in> set es then projr (marshal env (Value (heap w r))) else data (heap w r))"
  by (simp add: encoded_def)

lemma Encode_ok:
  "marshal env (Value (heap w e)) = Inr b \<Longrightarrow> Encode env e w = (None, encoded env [e] w)"
  by (auto simp: Encode_def encoded_def fun_eq_iff intro!: world.equality)

lemma Encode_fail:
  "marshal env (Value (heap w e)) = Inl err \<Longrightarrow> Encode env e w = (Some err, w)"
  by (simp add: Encode_def)

lemma encoded_Cons: "encoded env es (encoded env [e] w) = encoded env (e # es) w"
  by (auto simp: encoded_def fun_eq_iff intro!: world.equality)

lemma queued_encoded [simp]: "queued env (encoded env es w) = queued env w"
  by (simp add: queued_def fun_eq_iff)

lemma MSet_queue_ok:
  "\<forall>e \<in> set es. \<not> isl (marshal env (Value (heap w e))) \<Longrightarrow>
   MSet_queue env es pipe w = (Inr (pipe @ map (queued env w) es), encoded env es w)"
proof (induction es arbitrary: pipe w)
  case Nil
  then show ?case by (simp add: encoded_Nil)
next
  case (Cons e es)
  from Cons.prems obtain b where b: "marshal env (Value (heap w e)) = Inr b"
    by (cases "marshal env (Value (heap w e))") auto
  have rest: "\<forall>x \<in> set es. \<not> isl (marshal env (Value (heap (encoded env [e] w) x)))"
    using Cons.prems by simp
  have q: "PSet (Key (heap w e)) (data (heap (encoded env [e] w) e)) (Expiration (heap w e)) = queued env w e"
    by (simp add: queued_def encoded_data)
  show ?case
    using Cons.IH [OF rest] b q
    by (simp add: Encode_ok encoded_Cons)
qed

lemma MSet_queue_fail:
  "\<forall>e \<in> set pre. \<not> isl (marshal env (Value (heap w e))) \<Longrightarrow>
   marshal env (Value (heap w e)) = Inl err \<Longrightarrow>
   MSet_queue env (pre @ e # post) pipe w =
     (Inl (Wrapf err ''encode key = %s, value = %+v''), encoded env pre w)"
proof (induction pre arbitrary: pipe w)
  case Nil
  then show ?case by (simp add: encoded_Nil Encode_fail)
next
  case (Cons x pre)
  from Cons.prems obtain b where b: "marshal env (Value (heap w x)) = Inr b"
    by (cases "marshal env (Value (heap w x))") auto
  have rest: "\<forall>y \<in> set pre. \<not> isl (marshal env (Value (heap (encoded env [x] w) y)))"
    using Cons.prems by simp
  have e: "marshal env (Value (heap (encoded env [x] w) e)) = Inl err"
    using Cons.prems by simp
  show ?case
    using Cons.IH [OF rest e] b
    by (simp add: Encode_ok encoded_Cons)
qed

lemma MSet_cache_calls:
  "\<exists>n. snd (MSet_cache env es w) = w\<lparr>calls := calls w @ map (cached w) (take n (eligible w es))\<rparr>
       \<and> (fst (MSet_cache env es w) = None \<longrightarrow> n = length (eligible w es))"
proof (induction es arbitrary: w)
  case Nil
  then show ?case by (simp add: eligible_def)
next
  case (Cons e es)
  show ?case
  proof (cases "enableLocalCache (heap w e)")
    case False
    with Cons.IH [of w] show ?thesis by (simp add: eligible_def)
  next
    case True
    let ?w1 = "called (cached w e) w"
    show ?thesis
    proof (cases "cache_set_reply env (calls w) (Key (heap w e)) (data (heap w e)) (Expiration (heap w e))")
      case (Some err)
      have "snd (MSet_cache env (e # es) w) = w\<lparr>calls := calls w @ map (cached w) (take 1 (eligible w (e # es)))\<rparr>"
        using True Some by (simp add: call_defs eligible_def cached_def)
      moreover have "fst (MSet_cache env (e # es) w) \<noteq> None"
        using True Some by (simp add: call_defs)
      ultimately show ?thesis by (intro exI [of _ 1]) (auto simp del: MSet_cache.simps)
    next
      case None
      have same: "cached ?w1 = cached w" "eligible ?w1 es = eligible w es"
        by (simp_all add: cached_def eligible_def called_def fun_eq_iff)
      from Cons.IH [of ?w1] obtain n where
        n: "snd (MSet_cache env es ?w1) = ?w1\<lparr>calls := calls ?w1 @ map (cached ?w1) (take n (eligible ?w1 es))\<rparr>"
           "fst (MSet_cache env es ?w1) = None \<longrightarrow> n = length (eligible ?w1 es)"
        by (elim exE conjE) (rule that)
      have step: "MSet_cache env (e # es) w = MSet_cache env es ?w1"
        using True None by (simp add: call_defs cached_def)
      have "snd (MSet_cache env (e # es) w) = w\<lparr>calls := calls w @ map (cached w) (take (Suc n) (eligible w (e # es)))\<rparr>"
        using n(1) True unfolding step same by (simp add: called_def eligible_def)
      moreover have "fst (MSet_cache env (e # es) w) = None \<longrightarrow> Suc n = length (eligible w (e # es))"
        using n(2) True unfolding step same by (simp add: eligible_def)
      ultimately show ?thesis by (intro exI [of _ "Suc n"]) (auto simp del: MSet_cache.simps)
    qed
  qed
qed

lemma Set_success:
  "fst (Set env e w) = None \<Longrightarrow>
   \<exists>b. marshal env (Value (heap w e)) = Inr b \<and>
       Set env e w = (None, (encoded env [e] w)\<lparr>calls := calls w @
          StoreSet (Key (heap w e)) b (Expiration (heap w e)) #
          (if enableLocalCache (heap w e)
           then [CacheSet (Key (heap w e)) b (duration_div (Expiration (heap w e)) 2)] else [])\<rparr>)"
proof (cases "marshal env (Value (heap w e))")
  case (Inl err)
  assume "fst (Set env e w) = None"
  with Inl show ?thesis by (simp add: Set_def Encode_fail)
next
  case (Inr b)
  assume ok: "fst (Set env e w) = None"
  have d: "data (heap (encoded env [e] w) e) = b"
    using Inr by (simp add: encoded_data)
  show ?thesis
    using ok Inr d
    by (auto simp: Set_def Encode_ok call_defs split: option.splits if_splits)
qed

lemma MSet_success_encodes:
  assumes "fst (MSet env es w) = None"
  shows "\<forall>e \<in> set es. \<not> isl (marshal env (Value (heap w e)))"
proof (rule ccontr)
  assume "\<not> ?thesis"
  then have "\<exists>e \<in> set es. isl (marshal env (Value (heap w e)))" by blast
  from split_list_first_prop [OF this] obtain pre e post where
    split: "es = pre @ e # post" "isl (marshal env (Value (heap w e)))"
      "\<forall>x \<in> set pre. \<not> isl (marshal env (Value (heap w x)))"
    by blast
  from split(2) obtain err where "marshal env (Value (heap w e)) = Inl err"
    by (cases "marshal env (Value (heap w e))") auto
  from MSet_queue_fail [OF split(3) this, of post "[]"] assms split(1) show False
    by (simp add: MSet_def)
qed

lemma MSet_calls:
  assumes "\<forall>e \<in> set es. \<not> isl (marshal env (Value (heap w e)))"
  shows "\<exists>n. snd (MSet env es w) = (encoded env es w)\<lparr>calls := calls w @
            PipeExec (map (queued env w) es) # map (cached (encoded env es w)) (take n (eligible w es))\<rparr>
          \<and> (fst (MSet env es w) = None \<longrightarrow> n = length (eligible w es))
          \<and> (snd (pipe_exec_reply env (calls w) (map (queued env w) es)) \<noteq> None \<longrightarrow> n = 0)"
proof (cases "snd (pipe_exec_reply env (calls w) (map (queued env w) es))")
  case (Some err)
  then obtain c where r: "pipe_exec_reply env (calls w) (map (queued env w) es) = (c, Some err)"
    by (cases "pipe_exec_reply env (calls w) (map (queued env w) es)") auto
  have "snd (MSet env es w) = (encoded env es w)\<lparr>calls := calls w @
            PipeExec (map (queued env w) es) # map (cached (encoded env es w)) (take 0 (eligible w es))\<rparr>"
       "fst (MSet env es w) \<noteq> None"
    using r by (simp_all add: MSet_def MSet_queue_ok [OF assms] call_defs)
  then show ?thesis by (intro exI [of _ 0]) auto
next
  case None
  then obtain c where r: "pipe_exec_reply env (calls w) (map (queued env w) es) = (c, None)"
    by (cases "pipe_exec_reply env (calls w) (map (queued env w) es)") auto
  let ?w2 = "called (PipeExec (map (queued env w) es)) (encoded env es w)"
  have run: "MSet env es w = MSet_cache env es ?w2"
    using r by (simp add: MSet_def MSet_queue_ok [OF assms] call_defs)
  have same: "cached ?w2 = cached (encoded env es w)" "eligible ?w2 es = eligible w es"
    by (simp_all add: cached_def eligible_def called_def fun_eq_iff)
  from MSet_cache_calls [of env es ?w2] obtain n where
    n: "snd (MSet_cache env es ?w2) = ?w2\<lparr>calls := calls ?w2 @ map (cached ?w2) (take n (eligible ?w2 es))\<rparr>"
       "fst (MSet_cache env es ?w2) = None \<longrightarrow> n = length (eligible ?w2 es)"
    by (elim exE conjE) (rule that)
  have "snd (MSet env es w) = (encoded env es w)\<lparr>calls := calls w @
            PipeExec (map (queued env w) es) # map (cached (encoded env es w)) (take n (eligible w es))\<rparr>"
    using n(1) by (simp add: run same) (simp add: called_def)
  moreover have "fst (MSet env es w) = None \<longrightarrow> n = length (eligible w es)"
    using n(2) by (simp add: run same)
  ultimately show ?thesis using None by (intro exI [of _ n]) auto
qed

text \<open>
  C5. A \<open>Set\<close> that succeeds on a locally cacheable entry makes two calls: the store
  write with the entry's TTL and the local write with \<open>Expiration / 2\<close>. An \<open>MSet\<close>
  that succeeds makes the pipelined batch and then one local write for each locally
  cacheable entry, in order, with the entry's full TTL.
\<close>
theorem local_ttl_half_in_Set_full_in_MSet:
  "(fst (Set env e w) = None \<and> enableLocalCache (heap w e) \<longrightarrow>
      (let w' = snd (Set env e w); k = Key (heap w e); t = Expiration (heap w e);
           d = data (heap w' e)
       in issued w w' = [StoreSet k d t, CacheSet k d (duration_div t 2)]))
   \<and> (fst (MSet env es w) = None \<longrightarrow>
      (let w' = snd (MSet env es w)
       in issued w w' =
            PipeExec (map (\<lambda>e. PSet (Key (heap w e)) (data (heap w' e)) (Expiration (heap w e))) es)
            # map (\<lambda>e. CacheSet (Key (heap w e)) (data (heap w' e)) (Expiration (heap w e)))
                (filter (\<lambda>e. enableLocalCache (heap w e)) es)))"
proof (intro conjI impI)
  assume "fst (Set env e w) = None \<and> enableLocalCache (heap w e)"
  then have ok: "fst (Set env e w) = None" and elig: "enableLocalCache (heap w e)"
    by simp_all
  from Set_success [OF ok] obtain b where
    b: "marshal env (Value (heap w e)) = Inr b"
    and run: "Set env e w = (None, (encoded env [e] w)\<lparr>calls := calls w @
          StoreSet (Key (heap w e)) b (Expiration (heap w e)) #
          (if enableLocalCache (heap w e)
           then [CacheSet (Key (heap w e)) b (duration_div (Expiration (heap w e)) 2)] else [])\<rparr>)"
    by (elim exE conjE) (rule that)
  show "let w' = snd (Set env e w); k = Key (heap w e); t = Expiration (heap w e);
            d = data (heap w' e)
        in issued w w' = [StoreSet k d t, CacheSet k d (duration_div t 2)]"
    using elig b by (simp add: run encoded_data)
next
  assume ok: "fst (MSet env es w) = None"
  note enc = MSet_success_encodes [OF ok]
  from MSet_calls [OF enc] ok have
    run: "snd (MSet env es w) = (encoded env es w)\<lparr>calls := calls w @
            PipeExec (map (queued env w) es) # map (cached (encoded env es w)) (eligible w es)\<rparr>"
    by auto
  have q: "map (queued env w) es =
      map (\<lambda>e. PSet (Key (heap w e)) (data (heap (encoded env es w) e)) (Expiration (heap w e))) es"
    by (rule map_cong) (simp_all add: queued_def encoded_data)
  have c: "map (cached (encoded env es w)) (eligible w es) =
      map (\<lambda>e. CacheSet (Key (heap w e)) (data (heap (encoded env es w) e)) (Expiration (heap w e)))
        (filter (\<lambda>e. enableLocalCache (heap w e)) es)"
    by (simp add: cached_def eligible_def)
  show "let w' = snd (MSet env es w)
       in issued w w' =
            PipeExec (map (\<lambda>e. PSet (Key (heap w e)) (data (heap w' e)) (Expiration (heap w e))) es)
            # map (\<lambda>e. CacheSet (Key (heap w e)) (data (heap w' e)) (Expiration (heap w e)))
                (filter (\<lambda>e. enableLocalCache (heap w e)) es)"
    by (simp add: run q c)
qed

text \<open>
  C4, as the code has it. \<open>MSet\<close> encodes before it calls anything. If the value of
  an entry does not encode while those before it do, \<open>MSet\<close> returns that error wrapped
  and has made no call at all. If every value encodes, the first call is the one batch
  with a write for every entry; and if that batch fails, \<open>MSet\<close> returns its error
  wrapped and the batch is the only call made: there is no local write, and the store
  writes made are those of the failed batch that the store applied, which \<open>MSet\<close> does
  not undo.
\<close>
theorem MSet_abort_policy:
  "((\<forall>x \<in> set pre. \<not> isl (marshal env (Value (heap w x)))) \<and>
     marshal env (Value (heap w e)) = Inl err \<longrightarrow>
       fst (MSet env (pre @ e # post) w) = Some (Wrapf err ''encode key = %s, value = %+v'')
       \<and> issued w (snd (MSet env (pre @ e # post) w)) = [])
   \<and> ((\<forall>x \<in> set es. \<not> isl (marshal env (Value (heap w x)))) \<longrightarrow>
       take 1 (issued w (snd (MSet env es w))) =
         [PipeExec (map (\<lambda>x. PSet (Key (heap w x)) (projr (marshal env (Value (heap w x))))
                                   (Expiration (heap w x))) es)]
       \<and> (\<forall>xerr. snd (pipe_exec_reply env (calls w)
                     (map (\<lambda>x. PSet (Key (heap w x)) (projr (marshal env (Value (heap w x))))
                                   (Expiration (heap w x))) es)) = Some xerr \<longrightarrow>
            fst (MSet env es w) = Some (Wrapf xerr ''pipeline exec'')
            \<and> issued w (snd (MSet env es w)) =
                [PipeExec (map (\<lambda>x. PSet (Key (heap w x)) (projr (marshal env (Value (heap w x))))
                                   (Expiration (heap w x))) es)]
            \<and> cache_writes (issued w (snd (MSet env es w))) = []
            \<and> store_writes env (calls w) (issued w (snd (MSet env es w))) =
                acked (map (\<lambda>x. PSet (Key (heap w x)) (projr (marshal env (Value (heap w x))))
                                   (Expiration (heap w x))) es)
                  (fst (pipe_exec_reply env (calls w)
                     (map (\<lambda>x. PSet (Key (heap w x)) (projr (marshal env (Value (heap w x))))
                                   (Expiration (heap w x))) es)))))"
proof (intro conjI impI allI)
  assume a: "(\<forall>x \<in> set pre. \<not> isl (marshal env (Value (heap w x)))) \<and>
     marshal env (Value (heap w e)) = Inl err"
  then have run: "MSet_queue env (pre @ e # post) [] w =
     (Inl (Wrapf err ''encode key = %s, value = %+v''), encoded env pre w)"
    by (intro MSet_queue_fail) simp_all
  show "fst (MSet env (pre @ e # post) w) = Some (Wrapf err ''encode key = %s, value = %+v'')"
    by (simp add: MSet_def run)
  show "issued w (snd (MSet env (pre @ e # post) w)) = []"
    by (simp add: MSet_def run issued_def)
next
  assume enc: "\<forall>x \<in> set es. \<not> isl (marshal env (Value (heap w x)))"
  have q: "(\<lambda>x. PSet (Key (heap w x)) (projr (marshal env (Value (heap w x)))) (Expiration (heap w x)))
           = queued env w"
    by (simp add: queued_def fun_eq_iff)
  from MSet_calls [OF enc] show "take 1 (issued w (snd (MSet env es w))) =
         [PipeExec (map (\<lambda>x. PSet (Key (heap w x)) (projr (marshal env (Value (heap w x))))
                                   (Expiration (heap w x))) es)]"
    unfolding q by auto
  fix xerr
  assume f: "snd (pipe_exec_reply env (calls w)
                     (map (\<lambda>x. PSet (Key (heap w x)) (projr (marshal env (Value (heap w x))))
                                   (Expiration (heap w x))) es)) = Some xerr"
  then obtain c where r: "pipe_exec_reply env (calls w) (map (queued env w) es) = (c, Some xerr)"
    unfolding q by (cases "pipe_exec_reply env (calls w) (map (queued env w) es)") auto
  show "fst (MSet env es w) = Some (Wrapf xerr ''pipeline exec'')"
    using r by (simp add: MSet_def MSet_queue_ok [OF enc] call_defs)
  show only: "issued w (snd (MSet env es w)) =
                [PipeExec (map (\<lambda>x. PSet (Key (heap w x)) (projr (marshal env (Value (heap w x))))
                                   (Expiration (heap w x))) es)]"
    unfolding q using r by (simp add: MSet_def MSet_queue_ok [OF enc] call_defs issued_def)
  show "cache_writes (issued w (snd (MSet env es w))) = []"
    by (simp add: only)
  show "store_writes env (calls w) (issued w (snd (MSet env es w))) =
                acked (map (\<lambda>x. PSet (Key (heap w x)) (projr (marshal env (Value (heap w x))))
                                   (Expiration (heap w x))) es)
                  (fst (pipe_exec_reply env (calls w)
                     (map (\<lambda>x. PSet (Key (heap w x)) (projr (marshal env (Value (heap w x))))
                                   (Expiration (heap w x))) es)))"
    by (simp add: only)
qed

lemmas eval_defs =
  Set_def MSet_def Encode_def Decode_def call_defs env_empty_def w_init_def issued_def
  duration_div_def signed_divide_int_def

theorem local_ttl_half_in_Set_full_in_MSet_witness:
  "fst (Set env_empty 0 w_init) = None \<and> enableLocalCache (heap w_init 0)
   \<and> issued w_init (snd (Set env_empty 0 w_init)) = [StoreSet ''k'' [0] 10, CacheSet ''k'' [0] 5]
   \<and> fst (MSet env_empty [0, 1, 2] w_init) = None
   \<and> issued w_init (snd (MSet env_empty [0, 1, 2] w_init)) =
       [PipeExec [PSet ''k'' [0] 10, PSet ''kk'' [1] 10, PSet ''kkk'' [2] 10],
        CacheSet ''k'' [0] 10, CacheSet ''kkk'' [2] 10]"
proof -
  have s: "fst (Set env_empty 0 w_init) = None \<and> enableLocalCache (heap w_init 0)"
    by (simp add: eval_defs)
  have sd: "data (heap (snd (Set env_empty 0 w_init)) 0) = [0]"
    by (simp add: eval_defs)
  have m: "fst (MSet env_empty [0, 1, 2] w_init) = None"
    by (simp add: eval_defs)
  have md: "data (heap (snd (MSet env_empty [0, 1, 2] w_init)) 0) = [0]"
    "data (heap (snd (MSet env_empty [0, 1, 2] w_init)) 1) = [1]"
    "data (heap (snd (MSet env_empty [0, 1, 2] w_init)) 2) = [2]"
    by (simp_all add: eval_defs)
  have h: "Key (heap w_init 0) = ''k''" "Key (heap w_init (Suc 0)) = ''kk''" "Key (heap w_init 2) = ''kkk''"
    "Expiration (heap w_init r) = 10" "enableLocalCache (heap w_init r) = even r" for r
    by (simp_all add: w_init_def eval_nat_numeral)
  have half: "duration_div 10 2 = 5"
    by (simp add: duration_div_def signed_divide_int_def)
  note both = local_ttl_half_in_Set_full_in_MSet [of env_empty 0 w_init "[0, 1, 2]"]
  have a: "issued w_init (snd (Set env_empty 0 w_init)) = [StoreSet ''k'' [0] 10, CacheSet ''k'' [0] 5]"
    using both [THEN conjunct1, THEN mp, OF s] by (simp add: Let_def sd h half)
  have b: "issued w_init (snd (MSet env_empty [0, 1, 2] w_init)) =
       [PipeExec [PSet ''k'' [0] 10, PSet ''kk'' [1] 10, PSet ''kkk'' [2] 10],
        CacheSet ''k'' [0] 10, CacheSet ''kkk'' [2] 10]"
    using both [THEN conjunct2, THEN mp, OF m] md by (simp add: Let_def h)
  from s a m b show ?thesis by blast
qed

text \<open>
  C4, as stated, fails: a batch of two writes whose second command fails makes \<open>MSet\<close>
  return an error, and the store has applied the first write.
\<close>
theorem MSet_failed_batch_counterexample:
  "fst (MSet env_pipe_partial [0, 1] w_init) = Some (Wrapf (Failure 5) ''pipeline exec'')
   \<and> issued w_init (snd (MSet env_pipe_partial [0, 1] w_init)) =
       [PipeExec [PSet ''k'' [0] 10, PSet ''kk'' [1] 10]]
   \<and> pipe_exec_reply env_pipe_partial (calls w_init) [PSet ''k'' [0] 10, PSet ''kk'' [1] 10] =
       ([StatusCmd 0 None, StatusCmd 1 (Some (Failure 5))], Some (Failure 5))
   \<and> store_writes env_pipe_partial (calls w_init)
        (issued w_init (snd (MSet env_pipe_partial [0, 1] w_init))) = [(''k'', [0], 10)]"
  by (simp add: eval_defs env_pipe_partial_def)

theorem MSet_abort_policy_witness:
  "marshal (env_noenc 1) (Value (heap w_init 0)) = Inr [0]
   \<and> marshal (env_noenc 1) (Value (heap w_init 1)) = Inl (Failure 4)
   \<and> fst (MSet (env_noenc 1) [0, 1, 2] w_init) = Some (Wrapf (Failure 4) ''encode key = %s, value = %+v'')
   \<and> issued w_init (snd (MSet (env_noenc 1) [0, 1, 2] w_init)) = []
   \<and> marshal env_pipe_down (Value (heap w_init 0)) = Inr [0]
   \<and> marshal env_pipe_down (Value (heap w_init 1)) = Inr [1]
   \<and> snd (pipe_exec_reply env_pipe_down (calls w_init) [PSet ''k'' [0] 10, PSet ''kk'' [1] 10])
       = Some (Failure 5)
   \<and> fst (MSet env_pipe_down [0, 1] w_init) = Some (Wrapf (Failure 5) ''pipeline exec'')
   \<and> issued w_init (snd (MSet env_pipe_down [0, 1] w_init)) =
        [PipeExec [PSet ''k'' [0] 10, PSet ''kk'' [1] 10]]
   \<and> cache_writes (issued w_init (snd (MSet env_pipe_down [0, 1] w_init))) = []
   \<and> store_writes env_pipe_down (calls w_init) (issued w_init (snd (MSet env_pipe_down [0, 1] w_init))) = []
   \<and> snd (pipe_exec_reply env_pipe_partial (calls w_init) [PSet ''k'' [0] 10, PSet ''kk'' [1] 10])
       = Some (Failure 5)
   \<and> store_writes env_pipe_partial (calls w_init)
        (issued w_init (snd (MSet env_pipe_partial [0, 1] w_init))) = [(''k'', [0], 10)]"
proof -
  have pre: "\<forall>x \<in> set [0]. \<not> isl (marshal (env_noenc 1) (Value (heap w_init x)))"
    by (simp add: env_noenc_def env_empty_def w_init_def)
  have bad: "marshal (env_noenc 1) (Value (heap w_init 1)) = Inl (Failure 4)"
    by (simp add: env_noenc_def env_empty_def w_init_def)
  have enc: "\<forall>x \<in> set [0, 1]. \<not> isl (marshal env_pipe_down (Value (heap w_init x)))"
    "\<forall>x \<in> set [0, 1]. \<not> isl (marshal env_pipe_partial (Value (heap w_init x)))"
    by (simp_all add: env_pipe_down_def env_pipe_partial_def env_empty_def w_init_def)
  have pipe: "map (\<lambda>x. PSet (Key (heap w_init x)) (projr (marshal env_pipe_down (Value (heap w_init x))))
                 (Expiration (heap w_init x))) [0, 1] = [PSet ''k'' [0] 10, PSet ''kk'' [1] 10]"
    "map (\<lambda>x. PSet (Key (heap w_init x)) (projr (marshal env_pipe_partial (Value (heap w_init x))))
                 (Expiration (heap w_init x))) [0, 1] = [PSet ''k'' [0] 10, PSet ''kk'' [1] 10]"
    by (simp_all add: env_pipe_down_def env_pipe_partial_def env_empty_def w_init_def)
  have down: "snd (pipe_exec_reply env_pipe_down (calls w_init) [PSet ''k'' [0] 10, PSet ''kk'' [1] 10])
      = Some (Failure 5)"
    by (simp add: env_pipe_down_def env_empty_def)
  have part: "snd (pipe_exec_reply env_pipe_partial (calls w_init) [PSet ''k'' [0] 10, PSet ''kk'' [1] 10])
      = Some (Failure 5)"
    by (simp add: env_pipe_partial_def env_empty_def)
  have acks: "acked [PSet ''k'' [0] 10, PSet ''kk'' [1] 10]
       (fst (pipe_exec_reply env_pipe_down (calls w_init) [PSet ''k'' [0] 10, PSet ''kk'' [1] 10])) = []"
    "acked [PSet ''k'' [0] 10, PSet ''kk'' [1] 10]
       (fst (pipe_exec_reply env_pipe_partial (calls w_init) [PSet ''k'' [0] 10, PSet ''kk'' [1] 10]))
     = [(''k'', [0], 10)]"
    by (simp_all add: env_pipe_down_def env_pipe_partial_def env_empty_def)
  note first = MSet_abort_policy [of "[0]" "env_noenc 1" w_init 1 "Failure 4" "[2]",
      THEN conjunct1, THEN mp, OF conjI [OF pre bad]]
  note second = MSet_abort_policy [of "[]" env_pipe_down w_init 0 "Failure 0" "[]" "[0, 1]",
      THEN conjunct2, THEN mp, OF enc(1), THEN conjunct2, THEN spec, THEN mp, unfolded pipe, OF down]
  note third = MSet_abort_policy [of "[]" env_pipe_partial w_init 0 "Failure 0" "[]" "[0, 1]",
      THEN conjunct2, THEN mp, OF enc(2), THEN conjunct2, THEN spec, THEN mp, unfolded pipe, OF part]
  have m0: "marshal (env_noenc 1) (Value (heap w_init 0)) = Inr [0]"
    by (simp add: env_noenc_def env_empty_def w_init_def)
  have m1: "marshal env_pipe_down (Value (heap w_init 0)) = Inr [0]"
    "marshal env_pipe_down (Value (heap w_init 1)) = Inr [1]"
    by (simp_all add: env_pipe_down_def env_empty_def w_init_def)
  from m0 m1 bad down part first second third acks show ?thesis
    by simp
qed

section \<open>Properties of Del\<close>

lemma Del_cache_all:
  "\<forall>i < length ks. cache_del_reply env (calls w @ map CacheDel (take i ks)) (ks ! i) = None \<Longrightarrow>
   Del_cache env ks w = (None, w\<lparr>calls := calls w @ map CacheDel ks\<rparr>)"
proof (induction ks arbitrary: w)
  case Nil
  then show ?case by simp
next
  case (Cons k ks)
  from Cons.prems have first: "cache_del_reply env (calls w) k = None"
    by force
  have rest: "\<forall>i < length ks. cache_del_reply env (calls (called (CacheDel k) w) @ map CacheDel (take i ks)) (ks ! i) = None"
  proof (intro allI impI)
    fix i assume "i < length ks"
    with Cons.prems have "cache_del_reply env (calls w @ map CacheDel (take (Suc i) (k # ks))) ((k # ks) ! Suc i) = None"
      by (metis Suc_less_eq length_Cons)
    then show "cache_del_reply env (calls (called (CacheDel k) w) @ map CacheDel (take i ks)) (ks ! i) = None"
      by (simp add: called_def)
  qed
  show ?case
    using Cons.IH [OF rest] first by (simp add: call_defs)
qed

lemma Del_cache_first_failure:
  "\<forall>i < length pre. cache_del_reply env (calls w @ map CacheDel (take i pre)) (pre ! i) = None \<Longrightarrow>
   cache_del_reply env (calls w @ map CacheDel pre) k = Some err \<Longrightarrow>
   Del_cache env (pre @ k # post) w =
     (Some (Wrapf err ''delete cache: key = %s''), w\<lparr>calls := calls w @ map CacheDel (pre @ [k])\<rparr>)"
proof (induction pre arbitrary: w)
  case Nil
  then show ?case by (simp add: call_defs)
next
  case (Cons p pre)
  from Cons.prems(1) have first: "cache_del_reply env (calls w) p = None"
    by force
  have rest: "\<forall>i < length pre. cache_del_reply env (calls (called (CacheDel p) w) @ map CacheDel (take i pre)) (pre ! i) = None"
  proof (intro allI impI)
    fix i assume "i < length pre"
    with Cons.prems(1) have "cache_del_reply env (calls w @ map CacheDel (take (Suc i) (p # pre))) ((p # pre) ! Suc i) = None"
      by (metis Suc_less_eq length_Cons)
    then show "cache_del_reply env (calls (called (CacheDel p) w) @ map CacheDel (take i pre)) (pre ! i) = None"
      by (simp add: called_def)
  qed
  have fail: "cache_del_reply env (calls (called (CacheDel p) w) @ map CacheDel pre) k = Some err"
    using Cons.prems(2) by (simp add: called_def)
  show ?case
    using Cons.IH [OF rest fail] first by (simp add: call_defs)
qed

lemma Del_cache_calls:
  "\<exists>n. snd (Del_cache env ks w) = w\<lparr>calls := calls w @ map CacheDel (take n ks)\<rparr>"
proof (induction ks arbitrary: w)
  case Nil
  then show ?case by simp
next
  case (Cons k ks)
  show ?case
  proof (cases "cache_del_reply env (calls w) k")
    case (Some err)
    then have "snd (Del_cache env (k # ks) w) = w\<lparr>calls := calls w @ map CacheDel (take 1 (k # ks))\<rparr>"
      by (simp add: call_defs)
    then show ?thesis by (rule exI)
  next
    case None
    from Cons.IH [of "called (CacheDel k) w"] obtain n where
      "snd (Del_cache env ks (called (CacheDel k) w)) =
         (called (CacheDel k) w)\<lparr>calls := calls (called (CacheDel k) w) @ map CacheDel (take n ks)\<rparr>"
      by (elim exE) (rule that)
    with None have "snd (Del_cache env (k # ks) w) = w\<lparr>calls := calls w @ map CacheDel (take (Suc n) (k # ks))\<rparr>"
      by (simp add: call_defs)
    then show ?thesis by (rule exI)
  qed
qed

text \<open>
  C7. \<open>Del\<close> of no key returns success and leaves the world as it is. Otherwise its
  first call deletes all the keys from the store; if that fails, the error is returned
  wrapped and it is the only call. If it succeeds, the keys are deleted from the local
  cache one by one in order: at the first key whose delete fails (those before it
  having succeeded) the error is returned wrapped and no later key is deleted
  locally; if no delete fails, every key is deleted and \<open>Del\<close> returns success.
\<close>

theorem Del_order_and_abort:
  "Del env [] w = (None, w)
   \<and> (keys \<noteq> [] \<longrightarrow>
        take 1 (issued w (snd (Del env keys w))) = [StoreDel keys]
        \<and> (\<forall>err. store_del_reply env (calls w) keys = Some err \<longrightarrow>
              Del env keys w = (Some (Wrapf err ''store del, keys = %+v''),
                                w\<lparr>calls := calls w @ [StoreDel keys]\<rparr>))
        \<and> (store_del_reply env (calls w) keys = None \<longrightarrow>
             (\<forall>pre k post err.
                 keys = pre @ k # post
                 \<and> (\<forall>i < length pre.
                       cache_del_reply env (calls w @ StoreDel keys # map CacheDel (take i pre)) (pre ! i) = None)
                 \<and> cache_del_reply env (calls w @ StoreDel keys # map CacheDel pre) k = Some err \<longrightarrow>
                 Del env keys w = (Some (Wrapf err ''delete cache: key = %s''),
                                   w\<lparr>calls := calls w @ StoreDel keys # map CacheDel (pre @ [k])\<rparr>))
             \<and> ((\<forall>i < length keys.
                       cache_del_reply env (calls w @ StoreDel keys # map CacheDel (take i keys)) (keys ! i) = None) \<longrightarrow>
                 Del env keys w = (None, w\<lparr>calls := calls w @ StoreDel keys # map CacheDel keys\<rparr>))))"
proof (intro conjI impI allI)
  show "Del env [] w = (None, w)" by (simp add: Del_def)
next
  assume "keys \<noteq> []"
  then have ne: "keys \<noteq> []" .
  show "take 1 (issued w (snd (Del env keys w))) = [StoreDel keys]"
  proof (cases "store_del_reply env (calls w) keys")
    case (Some err)
    with ne show ?thesis by (simp add: Del_def call_defs issued_def)
  next
    case None
    from Del_cache_calls [of env keys "called (StoreDel keys) w"] obtain n where
      "snd (Del_cache env keys (called (StoreDel keys) w)) =
         (called (StoreDel keys) w)\<lparr>calls := calls (called (StoreDel keys) w) @ map CacheDel (take n keys)\<rparr>"
      by (elim exE) (rule that)
    with None ne show ?thesis by (simp add: Del_def call_defs issued_def)
  qed
next
  fix err
  assume "keys \<noteq> []" "store_del_reply env (calls w) keys = Some err"
  then show "Del env keys w = (Some (Wrapf err ''store del, keys = %+v''), w\<lparr>calls := calls w @ [StoreDel keys]\<rparr>)"
    by (simp add: Del_def call_defs)
next
  fix pre k post err
  assume ne: "keys \<noteq> []" and ok: "store_del_reply env (calls w) keys = None"
    and a: "keys = pre @ k # post
                 \<and> (\<forall>i < length pre.
                       cache_del_reply env (calls w @ StoreDel keys # map CacheDel (take i pre)) (pre ! i) = None)
                 \<and> cache_del_reply env (calls w @ StoreDel keys # map CacheDel pre) k = Some err"
  let ?w1 = "called (StoreDel keys) w"
  have run: "Del env keys w = Del_cache env keys ?w1"
    using ne ok by (simp add: Del_def call_defs)
  from a have a0: "keys = pre @ k # post"
    by (rule conjunct1)
  from a have a1: "\<forall>i < length pre.
        cache_del_reply env (calls w @ StoreDel keys # map CacheDel (take i pre)) (pre ! i) = None"
    by (rule conjunct2 [THEN conjunct1])
  from a have a2: "cache_del_reply env (calls w @ StoreDel keys # map CacheDel pre) k = Some err"
    by (rule conjunct2 [THEN conjunct2])
  have 1: "\<forall>i < length pre. cache_del_reply env (calls ?w1 @ map CacheDel (take i pre)) (pre ! i) = None"
    using a1 by (simp add: called_def)
  have 2: "cache_del_reply env (calls ?w1 @ map CacheDel pre) k = Some err"
    using a2 by (simp add: called_def)
  have 3: "Del_cache env keys ?w1 = Del_cache env (pre @ k # post) ?w1"
    by (subst a0) (rule refl)
  from Del_cache_first_failure [OF 1 2, of post]
  show "Del env keys w = (Some (Wrapf err ''delete cache: key = %s''),
                                   w\<lparr>calls := calls w @ StoreDel keys # map CacheDel (pre @ [k])\<rparr>)"
    unfolding run 3 by (simp add: called_def)
next
  assume ne: "keys \<noteq> []" and ok: "store_del_reply env (calls w) keys = None"
    and a: "\<forall>i < length keys.
                       cache_del_reply env (calls w @ StoreDel keys # map CacheDel (take i keys)) (keys ! i) = None"
  let ?w1 = "called (StoreDel keys) w"
  have run: "Del env keys w = Del_cache env keys ?w1"
    using ne ok by (simp add: Del_def call_defs)
  have 1: "\<forall>i < length keys. cache_del_reply env (calls ?w1 @ map CacheDel (take i keys)) (keys ! i) = None"
    using a by (simp add: called_def)
  from Del_cache_all [OF 1]
  show "Del env keys w = (None, w\<lparr>calls := calls w @ StoreDel keys # map CacheDel keys\<rparr>)"
    unfolding run by (simp add: called_def)
qed

theorem Del_order_and_abort_witness:
  "[''a'', ''b'', ''c''] \<noteq> []
   \<and> store_del_reply (env_stuck ''b'') (calls w_init) [''a'', ''b'', ''c''] = None
   \<and> Del (env_stuck ''b'') [''a'', ''b'', ''c''] w_init =
       (Some (Wrapf (Failure 6) ''delete cache: key = %s''),
        w_init\<lparr>calls := [StoreDel [''a'', ''b'', ''c''], CacheDel ''a'', CacheDel ''b'']\<rparr>)
   \<and> store_del_reply env_store_down (calls w_init) [''a''] = Some (Failure 7)
   \<and> Del env_store_down [''a''] w_init =
       (Some (Wrapf (Failure 7) ''store del, keys = %+v''), w_init\<lparr>calls := [StoreDel [''a'']]\<rparr>)
   \<and> Del env_empty [''a'', ''b''] w_init =
       (None, w_init\<lparr>calls := [StoreDel [''a'', ''b''], CacheDel ''a'', CacheDel ''b'']\<rparr>)"
proof -
  have c: "calls w_init = []" by (simp add: w_init_def)
  have ne: "[''a'', ''b'', ''c''] \<noteq> ([] :: key list)" "[''a''] \<noteq> ([] :: key list)"
    "[''a'', ''b''] \<noteq> ([] :: key list)"
    by simp_all
  have ok: "store_del_reply (env_stuck ''b'') (calls w_init) [''a'', ''b'', ''c''] = None"
    by (simp add: env_stuck_def env_empty_def)
  have stuck: "[''a'', ''b'', ''c''] = [''a''] @ ''b'' # [''c'']
     \<and> (\<forall>i < length [''a''].
           cache_del_reply (env_stuck ''b'')
             (calls w_init @ StoreDel [''a'', ''b'', ''c''] # map CacheDel (take i [''a''])) ([''a''] ! i) = None)
     \<and> cache_del_reply (env_stuck ''b'')
           (calls w_init @ StoreDel [''a'', ''b'', ''c''] # map CacheDel [''a'']) ''b'' = Some (Failure 6)"
    by (simp add: env_stuck_def env_empty_def)
  have down: "store_del_reply env_store_down (calls w_init) [''a''] = Some (Failure 7)"
    by (simp add: env_store_down_def env_empty_def)
  have ok2: "store_del_reply env_empty (calls w_init) [''a'', ''b''] = None"
    by (simp add: env_empty_def)
  have all: "\<forall>i < length [''a'', ''b''].
      cache_del_reply env_empty (calls w_init @ StoreDel [''a'', ''b''] # map CacheDel (take i [''a'', ''b'']))
        ([''a'', ''b''] ! i) = None"
    by (simp add: env_empty_def)
  note a = Del_order_and_abort [of "env_stuck ''b''" w_init "[''a'', ''b'', ''c'']",
      THEN conjunct2, THEN mp, OF ne(1), THEN conjunct2, THEN conjunct2, THEN mp, OF ok,
      THEN conjunct1, THEN spec, THEN spec, THEN spec, THEN spec, THEN mp, OF stuck]
  note b = Del_order_and_abort [of env_store_down w_init "[''a'']",
      THEN conjunct2, THEN mp, OF ne(2), THEN conjunct2, THEN conjunct1, THEN spec, THEN mp, OF down]
  note d = Del_order_and_abort [of env_empty w_init "[''a'', ''b'']",
      THEN conjunct2, THEN mp, OF ne(3), THEN conjunct2, THEN conjunct2, THEN mp, OF ok2,
      THEN conjunct2, THEN mp, OF all]
  from ne(1) ok a b d down show ?thesis
    by (simp add: c)
qed

section \<open>Properties of the invalidation subscriber\<close>

lemma sub_evict_calls:
  "calls (sub_evict env ks w) = calls w @ map CacheDel ks \<and> heap (sub_evict env ks w) = heap w"
proof (induction ks arbitrary: w)
  case Nil
  then show ?case by simp
next
  case (Cons k ks)
  show ?case
  proof (cases "cache_del_reply env (calls w) k")
    case None
    then show ?thesis using Cons.IH [of "called (CacheDel k) w"]
      by (simp add: call_defs)
  next
    case (Some err)
    then show ?thesis
      using Cons.IH [of "(called (CacheDel k) w)\<lparr>stdout := stdout (called (CacheDel k) w) @ [''CacheDeleteKey key = %s, err = %#v'']\<rparr>"]
      by (simp add: call_defs)
  qed
qed

lemma sub_loop_calls:
  "sub_loop ms w = w\<lparr>calls := calls w @ map (\<lambda>m. SubmitAsync (EvictJob m)) ms\<rparr>"
  by (induction ms arbitrary: w) (simp_all add: called_def)

lemma sub_calls:
  "calls (sub env channel ms w) =
     calls w @ Subscribe channel # map (\<lambda>m. SubmitAsync (EvictJob m)) ms @ [PubSubClose]"
  by (simp add: sub_def sub_loop_calls called_def Let_def split: option.splits)

text \<open>
  C8, as the code has it. The loop of \<open>sub\<close> hands the dispatcher one job for each
  message received, in order, carrying the message, and makes no other call between
  subscribing and closing: it neither decodes a payload nor touches the local cache.
  The job, when run, decodes the payload as a list of keys and deletes each key from
  the local cache in order, whether or not a delete fails, and returns success; if
  the payload does not decode, it returns that error and deletes nothing.
\<close>

theorem sub_one_job_per_message:
  "issued w (sub env channel ms w) =
     Subscribe channel # map (\<lambda>m. SubmitAsync (EvictJob m)) ms @ [PubSubClose]
   \<and> (\<forall>keys. unmarshal_keys env (Payload m) = Inr keys \<longrightarrow>
         fst (run_job env (EvictJob m) w) = None
         \<and> issued w (snd (run_job env (EvictJob m) w)) = map CacheDel keys)
   \<and> (\<forall>err. unmarshal_keys env (Payload m) = Inl err \<longrightarrow>
         run_job env (EvictJob m) w = (Some err, w))"
  by (simp add: issued_def sub_calls sub_Fn_def sub_evict_calls)

text \<open>
  C8, as stated, fails: a message whose payload lists the two keys \<open>a\<close> and \<open>b\<close>
  makes the loop submit one job, not one for each key.
\<close>

theorem sub_job_per_key_counterexample:
  "unmarshal_keys env_empty (Payload (Message ''ch'' ''ab'')) = Inr [''a'', ''b'']
   \<and> submitted (issued w_init (sub env_empty ''ch'' [Message ''ch'' ''ab''] w_init))
       = [EvictJob (Message ''ch'' ''ab'')]
   \<and> length (submitted (issued w_init (sub env_empty ''ch'' [Message ''ch'' ''ab''] w_init)))
       \<noteq> length [''a'', ''b'']"
  by (simp add: sub_def Let_def called_def issued_def env_empty_def w_init_def)

theorem sub_one_job_per_message_witness:
  "unmarshal_keys (env_stuck ''a'') (Payload (Message ''ch'' ''ab'')) = Inr [''a'', ''b'']
   \<and> cache_del_reply (env_stuck ''a'') (calls w_init) ''a'' = Some (Failure 6)
   \<and> fst (run_job (env_stuck ''a'') (EvictJob (Message ''ch'' ''ab'')) w_init) = None
   \<and> issued w_init (snd (run_job (env_stuck ''a'') (EvictJob (Message ''ch'' ''ab'')) w_init))
       = [CacheDel ''a'', CacheDel ''b'']
   \<and> unmarshal_keys env_empty (Payload (Message ''ch'' [])) = Inl (Failure 2)
   \<and> run_job env_empty (EvictJob (Message ''ch'' [])) w_init = (Some (Failure 2), w_init)
   \<and> issued w_init (sub env_empty ''ch'' [Message ''ch'' ''ab'', Message ''ch'' ''c''] w_init)
       = [Subscribe ''ch'', SubmitAsync (EvictJob (Message ''ch'' ''ab'')),
          SubmitAsync (EvictJob (Message ''ch'' ''c'')), PubSubClose]"
proof -
  have keys: "unmarshal_keys (env_stuck ''a'') (Payload (Message ''ch'' ''ab'')) = Inr [''a'', ''b'']"
    by (simp add: env_stuck_def env_empty_def)
  have fails: "cache_del_reply (env_stuck ''a'') (calls w_init) ''a'' = Some (Failure 6)"
    by (simp add: env_stuck_def env_empty_def)
  have bad: "unmarshal_keys env_empty (Payload (Message ''ch'' [])) = Inl (Failure 2)"
    by (simp add: env_empty_def)
  note job = sub_one_job_per_message [of w_init "env_stuck ''a''" "''ch''" "[]" "Message ''ch'' ''ab''",
      THEN conjunct2, THEN conjunct1, THEN spec, THEN mp, OF keys]
  note nojob = sub_one_job_per_message [of w_init env_empty "''ch''" "[]" "Message ''ch'' []",
      THEN conjunct2, THEN conjunct2, THEN spec, THEN mp, OF bad]
  note loop = sub_one_job_per_message [of w_init env_empty "''ch''"
      "[Message ''ch'' ''ab'', Message ''ch'' ''c'']" "Message ''ch'' []", THEN conjunct1]
  from keys fails job bad nojob loop show ?thesis
    by simp
qed

section \<open>Properties of MGet and of local writes\<close>

lemma steps_refl: "steps w w []"
  by (simp add: steps_def)

lemma steps_trans: "steps w w1 cs \<Longrightarrow> steps w1 w2 ds \<Longrightarrow> steps w w2 (cs @ ds)"
  by (simp add: steps_def)

lemma steps_called: "steps w (called c w) [c]"
  by (simp add: steps_def called_def)

lemma steps_Decode: "steps w (snd (Decode env e b w)) []"
  by (simp add: steps_def Decode_def split: prod.splits)

lemma steps_Encode: "steps w (snd (Encode env e w)) []"
  by (simp add: steps_def Encode_def split: sum.splits)

lemma steps_issued: "steps w w' cs \<Longrightarrow> issued w w' = cs"
  by (simp add: steps_def issued_def)

lemma batches_append: "batches (cs @ ds) = batches cs @ batches ds"
  by (induction cs rule: batches.induct) simp_all

lemma cache_writes_append: "cache_writes (cs @ ds) = cache_writes cs @ cache_writes ds"
  by (induction cs rule: cache_writes.induct) simp_all

lemma submitted_append: "submitted (cs @ ds) = submitted cs @ submitted ds"
  by (induction cs rule: submitted.induct) simp_all

lemma only_lookups:
  "set cs \<subseteq> range CacheGet \<Longrightarrow> batches cs = [] \<and> cache_writes cs = [] \<and> submitted cs = []"
  by (induction cs) auto

lemma only_jobs:
  "set cs \<subseteq> SubmitAsync ` J \<Longrightarrow> batches cs = [] \<and> cache_writes cs = [] \<and> set (submitted cs) \<subseteq> J"
  by (induction cs) auto

lemma scan_skip:
  "\<not> enableLocalCache (heap w e) \<Longrightarrow>
   batchGet_scan env (e # es) pipe found ret w =
     batchGet_scan env es (pipe @ [PGet (Key (heap w e))]) found (ret(length pipe \<mapsto> e)) w"
  by simp

lemma scan_hit:
  "enableLocalCache (heap w e) \<Longrightarrow>
   cache_get_reply env (calls w) (Key (heap w e)) = (CBytes dat, None) \<Longrightarrow>
   batchGet_scan env (e # es) pipe found ret w =
     (Inl (fst (Decode env e dat (called (CacheGet (Key (heap w e))) w))),
      snd (Decode env e dat (called (CacheGet (Key (heap w e))) w)))"
  by (simp add: cache_Get_def split: prod.splits)

lemma scan_miss:
  assumes "enableLocalCache (heap w e)"
    and "\<forall>dat. cache_get_reply env (calls w) (Key (heap w e)) \<noteq> (CBytes dat, None)"
  shows "batchGet_scan env (e # es) pipe found ret w =
     batchGet_scan env es pipe (insert e found) ret (called (CacheGet (Key (heap w e))) w)"
proof -
  obtain b err where r: "cache_get_reply env (calls w) (Key (heap w e)) = (b, err)"
    by (cases "cache_get_reply env (calls w) (Key (heap w e))") auto
  show ?thesis
  proof (cases b)
    case COther
    with assms(1) r show ?thesis by (simp add: cache_Get_def)
  next
    case (CBytes dat)
    with assms(2) r obtain y where "err = Some y" by (cases err) auto
    with assms(1) r CBytes show ?thesis by (simp add: cache_Get_def)
  qed
qed

lemma hit_or_not:
  "(\<exists>dat. cache_get_reply env h k = (CBytes dat, None)) \<or>
   (\<forall>dat. cache_get_reply env h k \<noteq> (CBytes dat, None))"
  by blast

lemma ran_upd_subset: "ran (m(k \<mapsto> v)) \<subseteq> insert v (ran m)"
  by (auto simp: ran_def)

lemma batchGet_scan_steps:
  "\<exists>cs. steps w (snd (batchGet_scan env es pipe found ret w)) cs \<and> set cs \<subseteq> range CacheGet"
proof (induction es arbitrary: pipe found ret w)
  case Nil
  show ?case using steps_refl [of w] by (intro exI [of _ "[]"]) simp
next
  case (Cons e es)
  show ?case
  proof (cases "enableLocalCache (heap w e)")
    case False
    show ?thesis unfolding scan_skip [OF False] by (rule Cons.IH)
  next
    case True
    let ?k = "Key (heap w e)"
    let ?w1 = "called (CacheGet ?k) w"
    from hit_or_not [of env "calls w" ?k] show ?thesis
    proof
      assume "\<exists>dat. cache_get_reply env (calls w) ?k = (CBytes dat, None)"
      then obtain dat where hit: "cache_get_reply env (calls w) ?k = (CBytes dat, None)" ..
      have "steps w (snd (Decode env e dat ?w1)) ([CacheGet ?k] @ [])"
        by (rule steps_trans [OF steps_called steps_Decode])
      then show ?thesis unfolding scan_hit [OF True hit]
        by (intro exI [of _ "[CacheGet ?k]"]) simp
    next
      assume miss: "\<forall>dat. cache_get_reply env (calls w) ?k \<noteq> (CBytes dat, None)"
      from Cons.IH [where w = ?w1 and found = "insert e found" and pipe = pipe and ret = ret] obtain cs where
        cs: "steps ?w1 (snd (batchGet_scan env es pipe (insert e found) ret ?w1)) cs"
          "set cs \<subseteq> range CacheGet"
        by (elim exE conjE) (rule that)
      have "steps w (snd (batchGet_scan env es pipe (insert e found) ret ?w1)) ([CacheGet ?k] @ cs)"
        by (rule steps_trans [OF steps_called cs(1)])
      then show ?thesis unfolding scan_miss [OF True miss] using cs(2)
        by (intro exI [of _ "[CacheGet ?k] @ cs"]) auto
    qed
  qed
qed

lemma chunk_batch_called [simp]: "chunk_batch (called c w) es = chunk_batch w es"
  by (simp add: chunk_batch_def called_def)

lemma batchGet_scan_pipe:
  "batchGet_scan env es pipe found ret w = (Inr (pipe', found', ret'), w') \<Longrightarrow>
   pipe' = pipe @ chunk_batch w es"
proof (induction es arbitrary: pipe found ret w)
  case Nil
  then show ?case by (simp add: chunk_batch_def)
next
  case (Cons e es)
  show ?case
  proof (cases "enableLocalCache (heap w e)")
    case False
    from Cons.prems have "batchGet_scan env es (pipe @ [PGet (Key (heap w e))]) found (ret(length pipe \<mapsto> e)) w
        = (Inr (pipe', found', ret'), w')"
      unfolding scan_skip [OF False] .
    from Cons.IH [OF this] False show ?thesis by (simp add: chunk_batch_def)
  next
    case True
    let ?k = "Key (heap w e)"
    from hit_or_not [of env "calls w" ?k] show ?thesis
    proof
      assume "\<exists>dat. cache_get_reply env (calls w) ?k = (CBytes dat, None)"
      then obtain dat where hit: "cache_get_reply env (calls w) ?k = (CBytes dat, None)" ..
      from Cons.prems show ?thesis unfolding scan_hit [OF True hit] by simp
    next
      assume miss: "\<forall>dat. cache_get_reply env (calls w) ?k \<noteq> (CBytes dat, None)"
      from Cons.prems have "batchGet_scan env es pipe (insert e found) ret (called (CacheGet ?k) w)
          = (Inr (pipe', found', ret'), w')"
        unfolding scan_miss [OF True miss] .
      from Cons.IH [OF this] True show ?thesis by (simp add: chunk_batch_def called_def)
    qed
  qed
qed

lemma batchGet_scan_ret:
  "batchGet_scan env es pipe found ret w = (Inr (pipe', found', ret'), w') \<Longrightarrow>
   ran ret' \<subseteq> ran ret \<union> set es"
proof (induction es arbitrary: pipe found ret w)
  case Nil
  then show ?case by simp
next
  case (Cons e es)
  show ?case
  proof (cases "enableLocalCache (heap w e)")
    case False
    from Cons.prems have "batchGet_scan env es (pipe @ [PGet (Key (heap w e))]) found (ret(length pipe \<mapsto> e)) w
        = (Inr (pipe', found', ret'), w')"
      unfolding scan_skip [OF False] .
    from Cons.IH [OF this] have "ran ret' \<subseteq> ran (ret(length pipe \<mapsto> e)) \<union> set es" .
    with ran_upd_subset [of ret "length pipe" e] have "ran ret' \<subseteq> insert e (ran ret) \<union> set es"
      by blast
    then show ?thesis by auto
  next
    case True
    let ?k = "Key (heap w e)"
    from hit_or_not [of env "calls w" ?k] show ?thesis
    proof
      assume "\<exists>dat. cache_get_reply env (calls w) ?k = (CBytes dat, None)"
      then obtain dat where hit: "cache_get_reply env (calls w) ?k = (CBytes dat, None)" ..
      from Cons.prems show ?thesis unfolding scan_hit [OF True hit] by simp
    next
      assume miss: "\<forall>dat. cache_get_reply env (calls w) ?k \<noteq> (CBytes dat, None)"
      from Cons.prems have "batchGet_scan env es pipe (insert e found) ret (called (CacheGet ?k) w)
          = (Inr (pipe', found', ret'), w')"
        unfolding scan_miss [OF True miss] .
      from Cons.IH [OF this] show ?thesis by auto
    qed
  qed
qed

text \<open>Without a byte-slice answer for an eligible entry, the first loop runs to its end.\<close>

lemma batchGet_scan_no_hit:
  "\<forall>e \<in> set es. enableLocalCache (heap w e) \<longrightarrow>
      (\<forall>h dat. cache_get_reply env h (Key (heap w e)) \<noteq> (CBytes dat, None)) \<Longrightarrow>
   \<exists>x. fst (batchGet_scan env es pipe found ret w) = Inr x"
proof (induction es arbitrary: pipe found ret w)
  case Nil
  show ?case by simp
next
  case (Cons e es)
  show ?case
  proof (cases "enableLocalCache (heap w e)")
    case False
    from Cons.prems have "\<forall>x \<in> set es. enableLocalCache (heap w x) \<longrightarrow>
      (\<forall>h dat. cache_get_reply env h (Key (heap w x)) \<noteq> (CBytes dat, None))" by simp
    from Cons.IH [OF this] show ?thesis unfolding scan_skip [OF False] .
  next
    case True
    let ?w1 = "called (CacheGet (Key (heap w e))) w"
    from Cons.prems True have miss: "\<forall>dat. cache_get_reply env (calls w) (Key (heap w e)) \<noteq> (CBytes dat, None)"
      by simp
    from Cons.prems have "\<forall>x \<in> set es. enableLocalCache (heap ?w1 x) \<longrightarrow>
      (\<forall>h dat. cache_get_reply env h (Key (heap ?w1 x)) \<noteq> (CBytes dat, None))"
      by (simp add: called_def)
    from Cons.IH [OF this] show ?thesis unfolding scan_miss [OF True miss] .
  qed
qed

lemma batchGet_collect_steps:
  "\<exists>cs. steps w (snd (batchGet_collect env cmders ret found w)) cs
        \<and> set cs \<subseteq> SubmitAsync ` BackfillJob ` ran ret"
proof (induction cmders arbitrary: found w)
  case Nil
  show ?case using steps_refl [of w] by (intro exI [of _ "[]"]) simp
next
  case (Cons c cmders)
  show ?case
  proof (cases c)
    case OtherCmd
    then show ?thesis using Cons.IH [where found = found and w = w] by simp
  next
    case (StatusCmd i serr)
    then show ?thesis using Cons.IH [where found = found and w = w] by simp
  next
    case (StringCmd cmd b err)
    show ?thesis
    proof (cases "ret cmd")
      case None
      with StringCmd show ?thesis using Cons.IH [where found = found and w = w] by simp
    next
      case (Some e)
      then have e: "e \<in> ran ret" by (rule ranI)
      show ?thesis
      proof (cases "err = Some RedisNil")
        case True
        let ?w1 = "called (SubmitAsync (BackfillJob e)) w"
        from Cons.IH [where found = found and w = ?w1] obtain cs where
          cs: "steps ?w1 (snd (batchGet_collect env cmders ret found ?w1)) cs"
            "set cs \<subseteq> SubmitAsync ` BackfillJob ` ran ret"
          by (elim exE conjE) (rule that)
        have run: "batchGet_collect env (c # cmders) ret found w = batchGet_collect env cmders ret found ?w1"
          using StringCmd Some True by simp
        have "steps w (snd (batchGet_collect env cmders ret found ?w1)) ([SubmitAsync (BackfillJob e)] @ cs)"
          by (rule steps_trans [OF steps_called cs(1)])
        then show ?thesis unfolding run using cs(2) e
          by (intro exI [of _ "[SubmitAsync (BackfillJob e)] @ cs"]) auto
      next
        case False
        show ?thesis
        proof (cases err)
          case (Some err')
          with False StringCmd \<open>ret cmd = Some e\<close>
          have run: "batchGet_collect env (c # cmders) ret found w = (Inl err', w)"
            by simp
          show ?thesis unfolding run using steps_refl [of w] by (intro exI [of _ "[]"]) simp
        next
          case None
          obtain derr w1 where d: "Decode env e b w = (derr, w1)"
            by (cases "Decode env e b w") auto
          have s1: "steps w w1 []"
            using steps_Decode [of w env e b] by (simp add: d)
          show ?thesis
          proof (cases derr)
            case (Some x)
            with None False StringCmd \<open>ret cmd = Some e\<close> d
            have run: "batchGet_collect env (c # cmders) ret found w = (Inl x, w1)"
              by simp
            show ?thesis unfolding run using s1 by (intro exI [of _ "[]"]) simp
          next
            case dn: None
            with None False StringCmd \<open>ret cmd = Some e\<close> d
            have run: "batchGet_collect env (c # cmders) ret found w =
                batchGet_collect env cmders ret (insert e found) w1"
              by simp
            from Cons.IH [where found = "insert e found" and w = w1] obtain cs where
              cs: "steps w1 (snd (batchGet_collect env cmders ret (insert e found) w1)) cs"
                "set cs \<subseteq> SubmitAsync ` BackfillJob ` ran ret"
              by (elim exE conjE) (rule that)
            have "steps w (snd (batchGet_collect env cmders ret (insert e found) w1)) ([] @ cs)"
              by (rule steps_trans [OF s1 cs(1)])
            then show ?thesis unfolding run using cs(2)
              by (intro exI [of _ cs]) simp
          qed
        qed
      qed
    qed
  qed
qed

text \<open>
  What one \<open>batchGet\<close> does to the trace: no local write, only backfill jobs of its
  entries, and at most one batch; when it makes a batch that fails, it returns an
  error; when its first loop runs to the end, it makes exactly one.
\<close>

lemma batchGet_steps:
  "\<exists>cs. steps w (snd (batchGet env es w)) cs
        \<and> cache_writes cs = []
        \<and> set (submitted cs) \<subseteq> BackfillJob ` set es
        \<and> (batches cs = [] \<or>
            (\<exists>h p. batches cs = [p] \<and>
               (snd (pipe_exec_reply env h p) \<noteq> None \<longrightarrow> snd (fst (batchGet env es w)) \<noteq> None)))
        \<and> ((\<exists>x. fst (batchGet_scan env es [] {} Map.empty w) = Inr x) \<longrightarrow> length (batches cs) = 1)
        \<and> (\<forall>p \<in> set (batches cs). p = chunk_batch w es)"
proof -
  obtain r w1 where scan: "batchGet_scan env es [] {} Map.empty w = (r, w1)"
    by (cases "batchGet_scan env es [] {} Map.empty w") auto
  from batchGet_scan_steps [of w env es "[]" "{}" Map.empty] obtain cs1 where
    cs1: "steps w w1 cs1" "set cs1 \<subseteq> range CacheGet"
    unfolding scan by (elim exE conjE) (simp add: that)
  note q1 = only_lookups [OF cs1(2)]
  show ?thesis
  proof (cases r)
    case (Inl err)
    have run: "batchGet env es w = (([], err), w1)"
      by (simp add: batchGet_def scan Inl)
    show ?thesis unfolding run using cs1(1) q1 scan Inl
      by (intro exI [of _ cs1]) simp
  next
    case (Inr x)
    obtain pipe found ret where x: "x = (pipe, found, ret)"
      by (cases x) auto
    from batchGet_scan_ret [OF scan [unfolded Inr x]] have ret: "ran ret \<subseteq> set es"
      by simp
    from batchGet_scan_pipe [OF scan [unfolded Inr x]] have pipe: "pipe = chunk_batch w es"
      by simp
    obtain cmders perr where reply: "pipe_exec_reply env (calls w1) pipe = (cmders, perr)"
      by (cases "pipe_exec_reply env (calls w1) pipe") auto
    let ?w2 = "called (PipeExec pipe) w1"
    have s2: "steps w ?w2 (cs1 @ [PipeExec pipe])"
      by (rule steps_trans [OF cs1(1) steps_called])
    show ?thesis
    proof (cases perr)
      case (Some err)
      have run: "batchGet env es w = (([], Some err), ?w2)"
        by (simp add: batchGet_def scan Inr x pipe_Exec_def reply Some)
      have b: "batches (cs1 @ [PipeExec pipe]) = [pipe]"
        "cache_writes (cs1 @ [PipeExec pipe]) = []" "submitted (cs1 @ [PipeExec pipe]) = []"
        using q1 by (simp_all add: batches_append cache_writes_append submitted_append)
      show ?thesis unfolding run using s2 b pipe
        by (intro exI [of _ "cs1 @ [PipeExec pipe]"]) simp
    next
      case None
      obtain r3 w3 where coll: "batchGet_collect env cmders ret found ?w2 = (r3, w3)"
        by (cases "batchGet_collect env cmders ret found ?w2") auto
      from batchGet_collect_steps [of ?w2 env cmders ret found] obtain cs3 where
        cs3: "steps ?w2 w3 cs3" "set cs3 \<subseteq> SubmitAsync ` BackfillJob ` ran ret"
        unfolding coll by (elim exE conjE) (simp add: that)
      note q3 = only_jobs [OF cs3(2)]
      have w3: "snd (batchGet env es w) = w3"
        by (simp add: batchGet_def scan Inr x pipe_Exec_def reply None coll split: sum.splits)
      have s3: "steps w w3 ((cs1 @ [PipeExec pipe]) @ cs3)"
        by (rule steps_trans [OF s2 cs3(1)])
      have b: "batches ((cs1 @ [PipeExec pipe]) @ cs3) = [pipe]"
        "cache_writes ((cs1 @ [PipeExec pipe]) @ cs3) = []"
        "set (submitted ((cs1 @ [PipeExec pipe]) @ cs3)) \<subseteq> BackfillJob ` set es"
        using q1 q3 ret by (simp_all add: batches_append cache_writes_append submitted_append) blast
      have ok: "snd (pipe_exec_reply env (calls w1) pipe) = None"
        by (simp add: reply None)
      have alt: "\<exists>h p. batches ((cs1 @ [PipeExec pipe]) @ cs3) = [p] \<and>
               (snd (pipe_exec_reply env h p) \<noteq> None \<longrightarrow> snd (fst (batchGet env es w)) \<noteq> None)"
        using b(1) ok by (intro exI [of _ "calls w1"] exI [of _ pipe]) simp
      show ?thesis unfolding w3 using s3 b alt pipe
        by (intro exI [of _ "(cs1 @ [PipeExec pipe]) @ cs3"]) simp
    qed
  qed
qed

lemma never_hit_steps: "steps w w' cs \<Longrightarrow> never_hit env w' es = never_hit env w es"
  by (simp add: never_hit_def steps_def)

lemma never_hit_slice: "never_hit env w es \<Longrightarrow> never_hit env w (take n (drop m es))"
  by (auto simp: never_hit_def dest!: in_set_takeD in_set_dropD)

lemma slice_subset: "set (take n (drop m es)) \<subseteq> set es"
  by (auto dest!: in_set_takeD in_set_dropD)

lemma MGet_loop_steps:
  "\<exists>cs. steps w (snd (MGet_loop env es batch miss w)) cs
        \<and> cache_writes cs = []
        \<and> set (submitted cs) \<subseteq> BackfillJob ` set es
        \<and> length (batches cs) \<le> length batch
        \<and> ((\<forall>h p. snd (pipe_exec_reply env h p) \<noteq> None) \<longrightarrow> length (batches cs) \<le> 1)
        \<and> (never_hit env w es \<and> snd (fst (MGet_loop env es batch miss w)) = None \<longrightarrow>
             length (batches cs) = length batch)"
proof (induction batch arbitrary: miss w)
  case Nil
  show ?case using steps_refl [of w] by (intro exI [of _ "[]"]) simp
next
  case (Cons c batch)
  obtain start len where c: "c = (start, len)" by (cases c) auto
  let ?es = "take len (drop start es)"
  obtain ee err w1 where b: "batchGet env ?es w = ((ee, err), w1)"
    by (cases "batchGet env ?es w") auto
  from batchGet_steps [of w env ?es] obtain cs1 where
    cs1: "steps w w1 cs1" "cache_writes cs1 = []" "set (submitted cs1) \<subseteq> BackfillJob ` set ?es"
      "batches cs1 = [] \<or> (\<exists>h p. batches cs1 = [p] \<and> (snd (pipe_exec_reply env h p) \<noteq> None \<longrightarrow> err \<noteq> None))"
      "(\<exists>x. fst (batchGet_scan env ?es [] {} Map.empty w) = Inr x) \<longrightarrow> length (batches cs1) = 1"
    unfolding b by (elim exE conjE) (simp add: that)
  from cs1(3) slice_subset [of len start es]
  have sub1: "set (submitted cs1) \<subseteq> BackfillJob ` set es" by blast
  from cs1(4) have le1: "length (batches cs1) \<le> 1" by auto
  have full: "never_hit env w es \<Longrightarrow> length (batches cs1) = 1"
    using cs1(5) batchGet_scan_no_hit [of ?es w env "[]" "{}" Map.empty] never_hit_slice [of env w es len start]
    by (simp add: never_hit_def)
  show ?case
  proof (cases err)
    case (Some x)
    have run: "MGet_loop env es (c # batch) miss w = (([], Some x), w1)"
      by (simp add: c b Some)
    show ?thesis unfolding run using cs1(1,2) sub1 le1
      by (intro exI [of _ cs1]) simp
  next
    case None
    have run: "MGet_loop env es (c # batch) miss w = MGet_loop env es batch (miss @ ee) w1"
      by (simp add: c b None)
    from Cons.IH [where w = w1 and miss = "miss @ ee"] obtain cs2 where
      cs2: "steps w1 (snd (MGet_loop env es batch (miss @ ee) w1)) cs2"
        "cache_writes cs2 = []" "set (submitted cs2) \<subseteq> BackfillJob ` set es"
        "length (batches cs2) \<le> length batch"
        "(\<forall>h p. snd (pipe_exec_reply env h p) \<noteq> None) \<longrightarrow> length (batches cs2) \<le> 1"
        "never_hit env w1 es \<and> snd (fst (MGet_loop env es batch (miss @ ee) w1)) = None \<longrightarrow>
             length (batches cs2) = length batch"
      by (elim exE conjE) (rule that)
    have s: "steps w (snd (MGet_loop env es batch (miss @ ee) w1)) (cs1 @ cs2)"
      by (rule steps_trans [OF cs1(1) cs2(1)])
    have nh: "never_hit env w1 es = never_hit env w es"
      by (rule never_hit_steps [OF cs1(1)])
    have down: "(\<forall>h p. snd (pipe_exec_reply env h p) \<noteq> None) \<Longrightarrow> batches cs1 = []"
      using cs1(4) None by auto
    have 1: "cache_writes (cs1 @ cs2) = []"
      by (simp add: cache_writes_append cs1(2) cs2(2))
    have 2: "set (submitted (cs1 @ cs2)) \<subseteq> BackfillJob ` set es"
      using sub1 cs2(3) by (simp add: submitted_append)
    have 3: "length (batches (cs1 @ cs2)) \<le> length (c # batch)"
      using le1 cs2(4) by (simp add: batches_append)
    have 4: "(\<forall>h p. snd (pipe_exec_reply env h p) \<noteq> None) \<longrightarrow> length (batches (cs1 @ cs2)) \<le> 1"
      using down cs2(5) by (simp add: batches_append)
    have 5: "never_hit env w es \<and> snd (fst (MGet_loop env es batch (miss @ ee) w1)) = None \<longrightarrow>
             length (batches (cs1 @ cs2)) = length (c # batch)"
      using full cs2(6) nh by (simp add: batches_append)
    show ?thesis unfolding run using s 1 2 3 4 5
      by (intro exI [of _ "cs1 @ cs2"]) simp
  qed
qed

lemma mass_Iter_length:
  "0 < sz \<Longrightarrow> length (mass_Iter start tot sz) = (tot - start + sz - 1) div sz"
proof (induction start tot sz rule: mass_Iter.induct)
  case (1 start tot sz)
  show ?case
  proof (cases "tot \<le> start")
    case True
    with 1(2) show ?thesis by (simp add: mass_Iter.simps [of start tot sz])
  next
    case False
    with 1 have ih: "length (mass_Iter (start + sz) tot sz) = (tot - (start + sz) + sz - 1) div sz"
      by simp
    have "(tot - start + sz - 1) div sz = Suc ((tot - (start + sz) + sz - 1) div sz)"
    proof (cases "sz \<le> tot - start")
      case True
      define m where "m = tot - start - 1"
      have l: "tot - start + sz - 1 = m + sz"
        using True 1(2) by (simp add: m_def)
      have r: "tot - (start + sz) + sz - 1 = m"
        using True 1(2) by (simp add: m_def)
      show ?thesis unfolding l r using div_add_self2 [of sz m] 1(2) by simp
    next
      case small: False
      then have a: "tot - (start + sz) + sz - 1 = sz - 1" by simp
      have b: "tot - start + sz - 1 = (tot - start - 1) + sz" using False by simp
      have c: "(tot - start - 1) div sz = 0" using small False by simp
      show ?thesis using 1(2) by (simp only: a b div_add_self2 c) simp
    qed
    with False 1(2) ih show ?thesis
      by (simp add: mass_Iter.simps [of start tot sz])
  qed
qed



lemma Get_local_steps:
  "\<exists>cs. steps w (snd (Get_local env e w)) cs \<and> set cs \<subseteq> range CacheGet"
proof (cases "enableLocalCache (heap w e)")
  case False
  then show ?thesis using steps_refl [of w]
    by (intro exI [of _ "[]"]) (simp add: Get_local_def)
next
  case True
  let ?k = "Key (heap w e)"
  let ?w1 = "called (CacheGet ?k) w"
  obtain dat cerr where r: "cache_get_reply env (calls w) ?k = (dat, cerr)"
    by (cases "cache_get_reply env (calls w) ?k") auto
  show ?thesis
  proof (cases cerr)
    case (Some err)
    have "snd (Get_local env e w) = ?w1"
      using True r Some by (simp add: Get_local_def cache_Get_def)
    then show ?thesis using steps_called [of w "CacheGet ?k"]
      by (intro exI [of _ "[CacheGet ?k]"]) simp
  next
    case None
    obtain b ok where a: "as_bytes dat = (b, ok)" by (cases "as_bytes dat") auto
    have "snd (Get_local env e w) = snd (Decode env e b ?w1)"
      using True r None a
      by (cases "Decode env e b ?w1") (simp add: Get_local_def cache_Get_def split: option.splits)
    moreover have "steps w (snd (Decode env e b ?w1)) ([CacheGet ?k] @ [])"
      by (rule steps_trans [OF steps_called steps_Decode])
    ultimately show ?thesis
      by (intro exI [of _ "[CacheGet ?k]"]) simp
  qed
qed

lemma Get_remote_steps:
  "\<exists>cs. steps w (snd (Get_remote env e w)) cs \<and> cache_writes cs = []
        \<and> batches cs = [] \<and> set (submitted cs) \<subseteq> {BackfillJob e}"
proof -
  let ?k = "Key (heap w e)"
  let ?w1 = "called (StoreGet ?k) w"
  obtain b err where r: "store_get_reply env (calls w) ?k = (b, err)"
    by (cases "store_get_reply env (calls w) ?k") auto
  show ?thesis
  proof (cases "err = Some RedisNil")
    case True
    have "snd (Get_remote env e w) = called (SubmitAsync (BackfillJob e)) ?w1"
      using r True by (simp add: Get_remote_def store_Get_def)
    moreover have "steps w (called (SubmitAsync (BackfillJob e)) ?w1) ([StoreGet ?k] @ [SubmitAsync (BackfillJob e)])"
      by (rule steps_trans [OF steps_called steps_called])
    ultimately show ?thesis
      by (intro exI [of _ "[StoreGet ?k, SubmitAsync (BackfillJob e)]"]) simp
  next
    case False
    show ?thesis
    proof (cases err)
      case (Some err')
      have "snd (Get_remote env e w) = ?w1"
        using r False Some by (simp add: Get_remote_def store_Get_def)
      then show ?thesis using steps_called [of w "StoreGet ?k"]
        by (intro exI [of _ "[StoreGet ?k]"]) simp
    next
      case None
      have "snd (Get_remote env e w) = snd (Decode env e b ?w1)"
        using r None
        by (cases "Decode env e b ?w1") (simp add: Get_remote_def store_Get_def split: option.splits)
      moreover have "steps w (snd (Decode env e b ?w1)) ([StoreGet ?k] @ [])"
        by (rule steps_trans [OF steps_called steps_Decode])
      ultimately show ?thesis
        by (intro exI [of _ "[StoreGet ?k]"]) simp
    qed
  qed
qed

lemma Get_steps:
  "\<exists>cs. steps w (snd (Get env e w)) cs \<and> cache_writes cs = []
        \<and> batches cs = [] \<and> set (submitted cs) \<subseteq> {BackfillJob e}"
proof -
  obtain r w1 where loc: "Get_local env e w = (r, w1)"
    by (cases "Get_local env e w") auto
  from Get_local_steps [of w env e] obtain cs1 where
    cs1: "steps w w1 cs1" "set cs1 \<subseteq> range CacheGet"
    unfolding loc by (elim exE conjE) (simp add: that)
  note q1 = only_lookups [OF cs1(2)]
  show ?thesis
  proof (cases r)
    case (Some x)
    have "snd (Get env e w) = w1" by (simp add: Get_def loc Some)
    then show ?thesis using cs1(1) q1 by (intro exI [of _ cs1]) simp
  next
    case None
    have run: "Get env e w = Get_remote env e w1" by (simp add: Get_def loc None)
    from Get_remote_steps [of w1 env e] obtain cs2 where
      cs2: "steps w1 (snd (Get_remote env e w1)) cs2" "cache_writes cs2 = []"
        "batches cs2 = []" "set (submitted cs2) \<subseteq> {BackfillJob e}"
      by (elim exE conjE) (rule that)
    have "steps w (snd (Get_remote env e w1)) (cs1 @ cs2)"
      by (rule steps_trans [OF cs1(1) cs2(1)])
    then show ?thesis unfolding run using q1 cs2(2,3,4)
      by (intro exI [of _ "cs1 @ cs2"])
         (simp add: cache_writes_append batches_append submitted_append)
  qed
qed

lemma Set_steps:
  "\<exists>cs. steps w (snd (Set env e w)) cs
        \<and> (\<not> enableLocalCache (heap w e) \<longrightarrow> cache_writes cs = [])"
proof -
  obtain err w1 where enc: "Encode env e w = (err, w1)"
    by (cases "Encode env e w") auto
  have s1: "steps w w1 []"
    using steps_Encode [of w env e] by (simp add: enc)
  then have same: "enableLocalCache (heap w1 e) = enableLocalCache (heap w e)"
    by (simp add: steps_def)
  let ?st = "StoreSet (Key (heap w1 e)) (data (heap w1 e)) (Expiration (heap w1 e))"
  let ?ca = "CacheSet (Key (heap w1 e)) (data (heap w1 e)) (duration_div (Expiration (heap w1 e)) 2)"
  have s2: "steps w (called ?st w1) ([] @ [?st])"
    by (rule steps_trans [OF s1 steps_called])
  have s3: "steps w (called ?ca (called ?st w1)) (([] @ [?st]) @ [?ca])"
    by (rule steps_trans [OF s2 steps_called])
  show ?thesis
  proof (cases err)
    case (Some x)
    have "snd (Set env e w) = w1" by (simp add: Set_def enc Some)
    then show ?thesis using s1 by (intro exI [of _ "[]"]) simp
  next
    case None
    show ?thesis
    proof (cases "store_set_reply env (calls w1) (Key (heap w1 e)) (data (heap w1 e)) (Expiration (heap w1 e))")
      case (Some x)
      have "snd (Set env e w) = called ?st w1"
        by (simp add: Set_def enc None store_Set_def Some)
      then show ?thesis using s2 by (intro exI [of _ "[?st]"]) simp
    next
      case sn: None
      show ?thesis
      proof (cases "enableLocalCache (heap w e)")
        case False
        have "snd (Set env e w) = called ?st w1"
          using False same by (simp add: Set_def enc None store_Set_def sn called_def)
        then show ?thesis using s2 by (intro exI [of _ "[?st]"]) simp
      next
        case True
        have "snd (Set env e w) = called ?ca (called ?st w1)"
          using True same
          by (simp add: Set_def enc None store_Set_def sn cache_Set_def called_def split: option.splits)
        then show ?thesis using s3 True by (intro exI [of _ "[?st, ?ca]"]) simp
      qed
    qed
  qed
qed

lemma Del_steps:
  "\<exists>cs. steps w (snd (Del env keys w)) cs \<and> cache_writes cs = []"
proof (cases "keys = []")
  case True
  then show ?thesis using steps_refl [of w] by (intro exI [of _ "[]"]) (simp add: Del_def)
next
  case False
  let ?w1 = "called (StoreDel keys) w"
  from Del_cache_calls [of env keys ?w1] obtain n where
    n: "snd (Del_cache env keys ?w1) = ?w1\<lparr>calls := calls ?w1 @ map CacheDel (take n keys)\<rparr>"
    by (elim exE) (rule that)
  have cw: "cache_writes (map CacheDel ks) = []" for ks
    by (induction ks) simp_all
  have "snd (Del env keys w) = ?w1 \<or> snd (Del env keys w) = snd (Del_cache env keys ?w1)"
    using False by (simp add: Del_def store_Del_def split: option.splits)
  then show ?thesis
  proof
    assume "snd (Del env keys w) = ?w1"
    then show ?thesis using steps_called [of w "StoreDel keys"]
      by (intro exI [of _ "[StoreDel keys]"]) simp
  next
    assume "snd (Del env keys w) = snd (Del_cache env keys ?w1)"
    with n have "snd (Del env keys w) = ?w1\<lparr>calls := calls ?w1 @ map CacheDel (take n keys)\<rparr>"
      by simp
    then have "steps w (snd (Del env keys w)) (StoreDel keys # map CacheDel (take n keys))"
      by (simp add: steps_def called_def)
    then show ?thesis
      by (intro exI [of _ "StoreDel keys # map CacheDel (take n keys)"]) (simp add: cw)
  qed
qed

lemma steps_same_identity: "steps w w' cs \<Longrightarrow> same_identity w w'"
  by (simp add: steps_def same_identity_def)

lemma cache_writes_cached:
  "cache_writes (map (cached W) xs) = map (\<lambda>x. (Key (heap W x), data (heap W x), Expiration (heap W x))) xs"
  by (induction xs) (simp_all add: cached_def)

lemma MSet_writes:
  "\<exists>n. cache_writes (issued w (snd (MSet env es w))) =
         map (\<lambda>x. (Key (heap w x), data (heap (snd (MSet env es w)) x), Expiration (heap w x)))
           (take n (filter (\<lambda>x. enableLocalCache (heap w x)) es))
       \<and> same_identity w (snd (MSet env es w))"
proof (cases "\<forall>e \<in> set es. \<not> isl (marshal env (Value (heap w e)))")
  case True
  from MSet_calls [OF True] obtain n where
    run: "snd (MSet env es w) = (encoded env es w)\<lparr>calls := calls w @
            PipeExec (map (queued env w) es) # map (cached (encoded env es w)) (take n (eligible w es))\<rparr>"
    by (elim exE conjE) (rule that)
  have "cache_writes (issued w (snd (MSet env es w))) =
         map (\<lambda>x. (Key (heap w x), data (heap (snd (MSet env es w)) x), Expiration (heap w x)))
           (take n (filter (\<lambda>x. enableLocalCache (heap w x)) es))"
    unfolding run by (simp add: issued_def cache_writes_cached eligible_def)
  moreover have "same_identity w (snd (MSet env es w))"
    unfolding run by (simp add: same_identity_def)
  ultimately show ?thesis by (intro exI [of _ n]) simp
next
  case False
  then have "\<exists>e \<in> set es. isl (marshal env (Value (heap w e)))" by blast
  from split_list_first_prop [OF this] obtain pre e post where
    split: "es = pre @ e # post" "isl (marshal env (Value (heap w e)))"
      "\<forall>x \<in> set pre. \<not> isl (marshal env (Value (heap w x)))"
    by blast
  from split(2) obtain err where "marshal env (Value (heap w e)) = Inl err"
    by (cases "marshal env (Value (heap w e))") auto
  from MSet_queue_fail [OF split(3) this, of post "[]"]
  have run: "snd (MSet env es w) = encoded env pre w"
    by (simp add: MSet_def split(1))
  have "cache_writes (issued w (snd (MSet env es w))) =
         map (\<lambda>x. (Key (heap w x), data (heap (snd (MSet env es w)) x), Expiration (heap w x)))
           (take 0 (filter (\<lambda>x. enableLocalCache (heap w x)) es))"
    unfolding run by (simp add: issued_def)
  moreover have "same_identity w (snd (MSet env es w))"
    unfolding run by (simp add: same_identity_def)
  ultimately show ?thesis by (intro exI [of _ 0]) simp
qed

lemma MGet_steps:
  "\<exists>cs. steps w (snd (MGet env es w)) cs
        \<and> cache_writes cs = []
        \<and> set (submitted cs) \<subseteq> BackfillJob ` set es
        \<and> length (batches cs) \<le> (length es + 2999) div 3000
        \<and> ((\<forall>h p. snd (pipe_exec_reply env h p) \<noteq> None) \<longrightarrow> length (batches cs) \<le> 1)
        \<and> (never_hit env w es \<and> snd (fst (MGet env es w)) = None \<longrightarrow>
             length (batches cs) = (length es + 2999) div 3000)"
proof -
  have n: "length (mass_Iter 0 (length es) 3000) = (length es + 2999) div 3000"
    by (simp add: mass_Iter_length)
  from MGet_loop_steps [of w env es "mass_Iter 0 (length es) 3000" "[]"]
  show ?thesis unfolding MGet_def n .
qed

text \<open>
  C9. Every local write is guarded by eligibility. A \<open>Set\<close> of an entry that is not
  locally cacheable, and so the backfill job of such an entry, makes no local write.
  The local writes of an \<open>MSet\<close> are writes of its locally cacheable entries, in
  order, each under its own key and with its own payload. \<open>Get\<close>, \<open>MGet\<close> and \<open>Del\<close>
  make no local write; the only jobs \<open>Get\<close> and \<open>MGet\<close> submit are backfill jobs of
  their own entries. No operation changes the key or the eligibility of an entry.
\<close>

theorem local_writes_guarded:
  "(\<not> enableLocalCache (heap w e) \<longrightarrow>
      cache_writes (issued w (snd (Set env e w))) = []
      \<and> cache_writes (issued w (snd (run_job env (BackfillJob e) w))) = [])
   \<and> (\<exists>n. cache_writes (issued w (snd (MSet env es w))) =
          map (\<lambda>x. (Key (heap w x), data (heap (snd (MSet env es w)) x), Expiration (heap w x)))
            (take n (filter (\<lambda>x. enableLocalCache (heap w x)) es)))
   \<and> cache_writes (issued w (snd (Get env e w))) = []
   \<and> set (submitted (issued w (snd (Get env e w)))) \<subseteq> {BackfillJob e}
   \<and> cache_writes (issued w (snd (MGet env es w))) = []
   \<and> set (submitted (issued w (snd (MGet env es w)))) \<subseteq> BackfillJob ` set es
   \<and> cache_writes (issued w (snd (Del env keys w))) = []
   \<and> same_identity w (snd (Set env e w))
   \<and> same_identity w (snd (MSet env es w))
   \<and> same_identity w (snd (Get env e w))
   \<and> same_identity w (snd (MGet env es w))
   \<and> same_identity w (snd (Del env keys w))"
proof -
  from Set_steps [of w env e] obtain cs1 where
    cs1: "steps w (snd (Set env e w)) cs1" "\<not> enableLocalCache (heap w e) \<longrightarrow> cache_writes cs1 = []"
    by (elim exE conjE) (rule that)
  from MSet_writes [of w env es] obtain n where
    n: "cache_writes (issued w (snd (MSet env es w))) =
         map (\<lambda>x. (Key (heap w x), data (heap (snd (MSet env es w)) x), Expiration (heap w x)))
           (take n (filter (\<lambda>x. enableLocalCache (heap w x)) es))"
      "same_identity w (snd (MSet env es w))"
    by (elim exE conjE) (rule that)
  from Get_steps [of w env e] obtain cs3 where
    cs3: "steps w (snd (Get env e w)) cs3" "cache_writes cs3 = []" "set (submitted cs3) \<subseteq> {BackfillJob e}"
    by (elim exE conjE) (rule that)
  from MGet_steps [of w env es] obtain cs4 where
    cs4: "steps w (snd (MGet env es w)) cs4" "cache_writes cs4 = []"
      "set (submitted cs4) \<subseteq> BackfillJob ` set es"
    by (elim exE conjE) (rule that)
  from Del_steps [of w env keys] obtain cs5 where
    cs5: "steps w (snd (Del env keys w)) cs5" "cache_writes cs5 = []"
    by (elim exE conjE) (rule that)
  have a: "\<not> enableLocalCache (heap w e) \<longrightarrow>
      cache_writes (issued w (snd (Set env e w))) = []
      \<and> cache_writes (issued w (snd (run_job env (BackfillJob e) w))) = []"
    using cs1(2) by (simp add: steps_issued [OF cs1(1)])
  have b: "\<exists>n. cache_writes (issued w (snd (MSet env es w))) =
          map (\<lambda>x. (Key (heap w x), data (heap (snd (MSet env es w)) x), Expiration (heap w x)))
            (take n (filter (\<lambda>x. enableLocalCache (heap w x)) es))"
    using n(1) by (rule exI)
  have c: "cache_writes (issued w (snd (Get env e w))) = []"
    "set (submitted (issued w (snd (Get env e w)))) \<subseteq> {BackfillJob e}"
    using cs3(2,3) by (simp_all add: steps_issued [OF cs3(1)])
  have d: "cache_writes (issued w (snd (MGet env es w))) = []"
    "set (submitted (issued w (snd (MGet env es w)))) \<subseteq> BackfillJob ` set es"
    using cs4(2,3) by (simp_all add: steps_issued [OF cs4(1)])
  have f: "cache_writes (issued w (snd (Del env keys w))) = []"
    using cs5(2) by (simp add: steps_issued [OF cs5(1)])
  note g = steps_same_identity [OF cs1(1)] n(2) steps_same_identity [OF cs3(1)]
    steps_same_identity [OF cs4(1)] steps_same_identity [OF cs5(1)]
  from a b c d f g show ?thesis by (intro conjI)
qed

theorem local_writes_guarded_witness:
  "\<not> enableLocalCache (heap w_init 1)
   \<and> fst (Set env_empty 1 w_init) = None
   \<and> cache_writes (issued w_init (snd (Set env_empty 1 w_init))) = []
   \<and> cache_writes (issued w_init (snd (run_job env_empty (BackfillJob 1) w_init))) = []"
proof -
  have inel: "\<not> enableLocalCache (heap w_init 1)"
    by (simp add: w_init_def)
  have ran: "fst (Set env_empty 1 w_init) = None"
    by (simp add: eval_defs)
  from local_writes_guarded [of w_init 1 env_empty "[]" "[]", THEN conjunct1, THEN mp, OF inel] inel ran
  show ?thesis by simp
qed

lemma mass_Iter_one: "0 < n \<Longrightarrow> n \<le> 3000 \<Longrightarrow> mass_Iter 0 n 3000 = [(0, n)]"
  by (simp add: mass_Iter.simps [of 0 n 3000] mass_Iter.simps [of 3000 n 3000])

lemmas MGet_eval_defs =
  MGet_def batchGet_def mass_Iter_one call_defs Decode_def env_empty_def env_hit_def
  w_init_def issued_def

text \<open>
  C1, on the code. The entry at address 0 is locally cacheable and its key is in
  neither tier: the local lookup fails and the store would answer \<open>redis.Nil\<close>. The
  first loop of \<open>batchGet\<close> marks the entry as found on the failed lookup and queues no
  remote read, so \<open>MGet\<close> returns an empty miss list. With a local cache that answers
  the lookup, \<open>batchGet\<close> returns \<open>nil, nil\<close> from inside the first loop, and the
  entry at address 1, which is in neither tier, is not in the miss list either.
\<close>

theorem MGet_loses_unresolved_entries:
  "enableLocalCache (heap w_init 0)
   \<and> cache_get_reply env_empty [] (Key (heap w_init 0)) = (COther, Some (Failure 3))
   \<and> store_get_reply env_empty [CacheGet ''k''] (Key (heap w_init 0)) = ([], Some RedisNil)
   \<and> MGet env_empty [0] w_init = (([], None), w_init\<lparr>calls := [CacheGet ''k'', PipeExec []]\<rparr>)
   \<and> cache_get_reply (env_hit [7]) [] (Key (heap w_init 0)) = (CBytes [7], None)
   \<and> store_get_reply (env_hit [7]) [CacheGet ''k''] (Key (heap w_init 1)) = ([], Some RedisNil)
   \<and> fst (MGet (env_hit [7]) [0, 1] w_init) = ([], None)
   \<and> calls (snd (MGet (env_hit [7]) [0, 1] w_init)) = [CacheGet ''k'']"
  by (simp add: MGet_eval_defs)

section \<open>Properties of the batches of MGet\<close>

















end
